theory Spec2Isabelle
  imports Complex_Main
begin

section \<open>Data model\<close>

text \<open>
  The simulator works on C++ \<^verbatim>\<open>double\<close>s. The embedding is over exact real arithmetic:
  a \<^verbatim>\<open>double\<close> is a \<^typ>\<open>real\<close>, and the value \<^verbatim>\<open>+infinity\<close> that the collision-time
  helpers return for "no collision" is \<^term>\<open>None\<close> of \<^typ>\<open>real option\<close>
  (\<^verbatim>\<open>std::isfinite\<close> is then "is \<^term>\<open>Some\<close>"). Rounding and NaN are outside the model.
  The \<^verbatim>\<open>int\<close> fields are HOL integers; a signed overflow of \<^verbatim>\<open>coll_count++\<close> is undefined
  behaviour in C++ and is outside the model as well.
\<close>

subsection \<open>vec2.h\<close>

record Vec2 =
  x :: real
  y :: real

definition Vec2_add :: "Vec2 \<Rightarrow> Vec2 \<Rightarrow> Vec2" where
  "Vec2_add p o' = \<lparr>x = x p + x o', y = y p + y o'\<rparr>"

definition Vec2_sub :: "Vec2 \<Rightarrow> Vec2 \<Rightarrow> Vec2" where
  "Vec2_sub p o' = \<lparr>x = x p - x o', y = y p - y o'\<rparr>"

definition Vec2_mul :: "Vec2 \<Rightarrow> real \<Rightarrow> Vec2" where
  "Vec2_mul p s = \<lparr>x = x p * s, y = y p * s\<rparr>"

definition dot :: "Vec2 \<Rightarrow> Vec2 \<Rightarrow> real" where
  "dot p o' = x p * x o' + y p * y o'"

definition norm2 :: "Vec2 \<Rightarrow> real" where
  "norm2 p = x p * x p + y p * y p"

subsection \<open>particle.h\<close>

record Particle =
  r :: Vec2
  v :: Vec2
  rad :: real
  m :: real
  coll_count :: int

subsection \<open>event.h\<close>

text \<open>
  The enumeration \<^verbatim>\<open>EventType\<close> and the struct \<^verbatim>\<open>Event\<close>, field for field. The constructor
  is \<^verbatim>\<open>Event(t, a, b, type, collA, collB)\<close>; a wall event carries \<open>b = -1\<close> and \<open>collB = -1\<close>.
\<close>

datatype EventType = P_WALL_X | P_WALL_Y | P_P

record Event =
  t :: real
  a :: int
  b :: int
  type :: EventType
  collA :: int
  collB :: int

text \<open>
  The heap \<^verbatim>\<open>std::priority_queue<Event, std::vector<Event>, EventEarlier>\<close>. The comparator
  \<^verbatim>\<open>EventEarlier\<close> compares the times only (\<^verbatim>\<open>lhs.t > rhs.t\<close>), so \<^verbatim>\<open>top\<close> is an event of least
  time. The pending set is the list of events in insertion order; \<open>pq_top\<close> is the first
  event of least time, \<open>pq_pop\<close> removes it. Which of several events of the same time the
  library heap yields first depends on its layout; here it is the one pushed first. The
  general proofs below use only that \<open>pq_top\<close> is a pending event of least time.
\<close>

fun pq_top :: "Event list \<Rightarrow> Event" where
  "pq_top [] = undefined"
| "pq_top [e] = e"
| "pq_top (e # es) = (let e' = pq_top es in if t e \<le> t e' then e else e')"

definition pq_pop :: "Event list \<Rightarrow> Event list" where
  "pq_pop q = remove1 (pq_top q) q"

definition pq_push :: "Event list \<Rightarrow> Event \<Rightarrow> Event list" where
  "pq_push q e = q @ [e]"

subsection \<open>simulator.h\<close>

record SimConfig =
  W :: real
  H :: real
  T_end :: real
  max_events :: int
  enable_rollback :: bool
  rollback_depth :: int

text \<open>The fields of \<^verbatim>\<open>SimState\<close> are \<^verbatim>\<open>t\<close> and \<^verbatim>\<open>P\<close>; they carry a suffix here, \<open>t\<close> being
  the time of an event.\<close>

record SimState =
  t_S :: real
  P_S :: "Particle list"

text \<open>The members of \<^verbatim>\<open>class Simulator\<close>: \<^verbatim>\<open>cfg_\<close>, \<^verbatim>\<open>P_\<close>, \<^verbatim>\<open>t_\<close>, \<^verbatim>\<open>pq_\<close> and \<^verbatim>\<open>undo_\<close>, written
  with the suffix \<open>_m\<close> (a field name cannot end in an underscore here). The stack
  \<open>undo_m\<close> is a list whose head is the top.\<close>

record Simulator =
  cfg_m :: SimConfig
  P_m :: "Particle list"
  t_m :: real
  pq_m :: "Event list"
  undo_m :: "SimState list"

text \<open>The one exception the code can raise: \<^verbatim>\<open>std::vector::reserve\<close> throws
  \<^verbatim>\<open>std::length_error\<close> when asked for more than \<^verbatim>\<open>max_size()\<close> elements, which is what a
  negative \<^verbatim>\<open>int\<close> converted to \<^verbatim>\<open>size_t\<close> asks for.\<close>

datatype error = LengthError

section \<open>Operations of the simulator\<close>

subsection \<open>Constructor\<close>

text \<open>The constructor copies the configuration and moves the particles in; its body is
  empty, \<open>t_m\<close> starts at \<open>0.0\<close>, the heap and the stack start empty. It has no failing
  path: the result is always \<^term>\<open>Inr\<close>.\<close>

definition Simulator_init :: "SimConfig \<Rightarrow> Particle list \<Rightarrow> error + Simulator" where
  "Simulator_init cfg init =
     Inr \<lparr>cfg_m = cfg, P_m = init, t_m = 0, pq_m = [], undo_m = []\<rparr>"

subsection \<open>Snapshot and undo\<close>

definition snapshot :: "Simulator \<Rightarrow> error + Simulator" where
  "snapshot s =
     (if \<not> enable_rollback (cfg_m s) then Inr s
      else if int (length (undo_m s)) \<ge> rollback_depth (cfg_m s) then
        (if rollback_depth (cfg_m s) < 0 then Inl LengthError
         else Inr (s\<lparr>undo_m := \<lparr>t_S = t_m s, P_S = P_m s\<rparr> # butlast (undo_m s)\<rparr>))
      else Inr (s\<lparr>undo_m := \<lparr>t_S = t_m s, P_S = P_m s\<rparr> # undo_m s\<rparr>))"

subsection \<open>Time advancement\<close>

definition drift_to :: "Simulator \<Rightarrow> real \<Rightarrow> Simulator" where
  "drift_to s T =
     (let dt = T - t_m s in
      if dt \<le> 0 then s
      else s\<lparr>P_m := map (\<lambda>p. p\<lparr>r := Vec2_add (r p) (Vec2_mul (v p) dt)\<rparr>) (P_m s), t_m := T\<rparr>)"

subsection \<open>Collision-time helpers\<close>

definition time_to_wall_x :: "SimConfig \<Rightarrow> Particle \<Rightarrow> real option" where
  "time_to_wall_x c p =
     (if x (v p) > 0 then Some ((W c - rad p - x (r p)) / x (v p))
      else if x (v p) < 0 then Some ((rad p - x (r p)) / x (v p))
      else None)"

definition time_to_wall_y :: "SimConfig \<Rightarrow> Particle \<Rightarrow> real option" where
  "time_to_wall_y c p =
     (if y (v p) > 0 then Some ((H c - rad p - y (r p)) / y (v p))
      else if y (v p) < 0 then Some ((rad p - y (r p)) / y (v p))
      else None)"

definition time_to_pp :: "Particle \<Rightarrow> Particle \<Rightarrow> real option" where
  "time_to_pp A B =
     (let dr = Vec2_sub (r B) (r A);
          dv = Vec2_sub (v B) (v A);
          R = rad A + rad B;
          dvdr = dot dv dr
      in if dvdr \<ge> 0 then None
         else let dvdv = norm2 dv;
                  drdr = norm2 dr;
                  disc = dvdr * dvdr - dvdv * (drdr - R * R)
              in if disc < 0 then None
                 else let tcol = - (dvdr + sqrt disc) / dvdv
                      in if tcol \<le> 1 / 10 ^ 12 then None else Some tcol)"

subsection \<open>Event scheduling\<close>

definition push :: "Simulator \<Rightarrow> Event \<Rightarrow> Simulator" where
  "push s e = s\<lparr>pq_m := pq_push (pq_m s) e\<rparr>"

definition schedule_wall_events :: "Simulator \<Rightarrow> nat \<Rightarrow> Simulator" where
  "schedule_wall_events s i =
     (let p = P_m s ! i;
          tx = time_to_wall_x (cfg_m s) p;
          ty = time_to_wall_y (cfg_m s) p;
          s1 = (case tx of
                  Some dx \<Rightarrow>
                    if t_m s + dx \<le> T_end (cfg_m s)
                    then push s \<lparr>t = t_m s + dx, a = int i, b = - 1, type = P_WALL_X,
                                 collA = coll_count (P_m s ! i), collB = - 1\<rparr>
                    else s
                | None \<Rightarrow> s)
      in (case ty of
            Some dy \<Rightarrow>
              if t_m s1 + dy \<le> T_end (cfg_m s1)
              then push s1 \<lparr>t = t_m s1 + dy, a = int i, b = - 1, type = P_WALL_Y,
                            collA = coll_count (P_m s1 ! i), collB = - 1\<rparr>
              else s1
          | None \<Rightarrow> s1))"

text \<open>The pair prediction that \<^verbatim>\<open>schedule_pp_events_for\<close> runs for \<open>(i, j)\<close> and the
  pair branch of \<^verbatim>\<open>run\<close> runs for \<open>(i1, i2)\<close>.\<close>

definition push_pp_event :: "Simulator \<Rightarrow> nat \<Rightarrow> nat \<Rightarrow> Simulator" where
  "push_pp_event s i j =
     (case time_to_pp (P_m s ! i) (P_m s ! j) of
        Some dt \<Rightarrow>
          if t_m s + dt \<le> T_end (cfg_m s)
          then push s \<lparr>t = t_m s + dt, a = int i, b = int j, type = P_P,
                       collA = coll_count (P_m s ! i), collB = coll_count (P_m s ! j)\<rparr>
          else s
      | None \<Rightarrow> s)"

definition schedule_pp_events_for :: "Simulator \<Rightarrow> nat \<Rightarrow> Simulator" where
  "schedule_pp_events_for s i =
     fold (\<lambda>j s'. push_pp_event s' i j) [i + 1 ..< length (P_m s)] s"

definition schedule_all :: "Simulator \<Rightarrow> Simulator" where
  "schedule_all s =
     (let s1 = fold (\<lambda>i s'. schedule_wall_events s' i) [0 ..< length (P_m s)] s
      in fold (\<lambda>i s'. schedule_pp_events_for s' i) [0 ..< length (P_m s1)] s1)"

definition undo :: "Simulator \<Rightarrow> bool \<times> Simulator" where
  "undo s =
     (if \<not> enable_rollback (cfg_m s) \<or> undo_m s = [] then (False, s)
      else let st = hd (undo_m s)
           in (True, schedule_all
                       (s\<lparr>undo_m := tl (undo_m s), t_m := t_S st, P_m := P_S st, pq_m := []\<rparr>)))"

subsection \<open>Event validation\<close>

definition valid :: "Simulator \<Rightarrow> Event \<Rightarrow> bool" where
  "valid s e =
     (if a e \<ge> 0 \<and> coll_count (P_m s ! nat (a e)) \<noteq> collA e then False
      else if type e = P_P \<and> b e \<ge> 0 \<and> coll_count (P_m s ! nat (b e)) \<noteq> collB e then False
      else True)"

subsection \<open>Collision resolvers\<close>

definition bounce_wall_x :: "Simulator \<Rightarrow> nat \<Rightarrow> Simulator" where
  "bounce_wall_x s i =
     (let p = P_m s ! i
      in s\<lparr>P_m := (P_m s)[i := p\<lparr>v := (v p)\<lparr>x := - x (v p)\<rparr>,
                               coll_count := coll_count p + 1\<rparr>]\<rparr>)"

definition bounce_wall_y :: "Simulator \<Rightarrow> nat \<Rightarrow> Simulator" where
  "bounce_wall_y s i =
     (let p = P_m s ! i
      in s\<lparr>P_m := (P_m s)[i := p\<lparr>v := (v p)\<lparr>y := - y (v p)\<rparr>,
                               coll_count := coll_count p + 1\<rparr>]\<rparr>)"

text \<open>\<open>A\<close> and \<open>B\<close> are references into \<open>P_m\<close>. The impulse is computed before either
  velocity is written, and when \<open>i = j\<close> the two alias, \<open>dr\<close> is the zero vector and the
  function returns early: the two writes never interfere.\<close>

definition bounce_pp :: "Simulator \<Rightarrow> nat \<Rightarrow> nat \<Rightarrow> Simulator" where
  "bounce_pp s i j =
     (let A = P_m s ! i;
          B = P_m s ! j;
          dr = Vec2_sub (r B) (r A);
          dv = Vec2_sub (v B) (v A);
          dist2 = norm2 dr
      in if dist2 \<le> 0 then s
         else let rel = dot dv dr / dist2;
                  mA = m A;
                  mB = m B;
                  Jn = Vec2_mul dr rel;
                  impulse = Vec2_mul Jn (2 * mA * mB / (mA + mB));
                  A' = A\<lparr>v := Vec2_add (v A) (Vec2_mul impulse (- 1 / mA)),
                         coll_count := coll_count A + 1\<rparr>;
                  B' = B\<lparr>v := Vec2_add (v B) (Vec2_mul impulse (1 / mB)),
                         coll_count := coll_count B + 1\<rparr>
              in s\<lparr>P_m := (P_m s)[i := A', j := B']\<rparr>)"

subsection \<open>Main loop\<close>

text \<open>The \<^verbatim>\<open>switch\<close> of \<^verbatim>\<open>run\<close>: resolve the event and reschedule. The events that reach
  it were built by the schedulers, so their indices are natural numbers below the number
  of particles.\<close>

definition run_switch :: "Simulator \<Rightarrow> Event \<Rightarrow> Simulator" where
  "run_switch s e =
     (let ia = nat (a e); ib = nat (b e)
      in case type e of
           P_WALL_X \<Rightarrow>
             schedule_pp_events_for (schedule_wall_events (bounce_wall_x s ia) ia) ia
         | P_WALL_Y \<Rightarrow>
             schedule_pp_events_for (schedule_wall_events (bounce_wall_y s ia) ia) ia
         | P_P \<Rightarrow>
             (let s1 = bounce_pp s ia ib;
                  s2 = schedule_wall_events s1 ia;
                  s3 = schedule_wall_events s2 ib
              in fold (\<lambda>k s'. if k = ia \<or> k = ib then s'
                               else push_pp_event (push_pp_event s' (min k ia) (max k ia))
                                                  (min k ib) (max k ib))
                      [0 ..< length (P_m s3)] s3))"

text \<open>One pass through the \<^verbatim>\<open>while\<close> loop of \<^verbatim>\<open>run\<close>, from the test of the loop condition
  to the end of the body: \<open>Next\<close> goes round again (after \<^verbatim>\<open>continue\<close> or at the end of the
  body), \<open>Stop\<close> leaves the loop (condition false, or \<^verbatim>\<open>break\<close>), \<open>Fail\<close> is an exception.\<close>

datatype loop_result = Next Simulator int | Stop Simulator | Fail error

definition run_iteration :: "Simulator \<Rightarrow> int \<Rightarrow> loop_result" where
  "run_iteration s processed =
     (if pq_m s = [] \<or> \<not> processed < max_events (cfg_m s) then Stop s
      else let e = pq_top (pq_m s);
               s1 = s\<lparr>pq_m := pq_pop (pq_m s)\<rparr>
           in if t e > T_end (cfg_m s1) then Stop s1
              else if \<not> valid s1 e then Next s1 processed
              else case snapshot s1 of
                     Inl err \<Rightarrow> Fail err
                   | Inr s2 \<Rightarrow> Next (run_switch (drift_to s2 (t e)) e) (processed + 1))"

text \<open>The \<^verbatim>\<open>while\<close> loop. It terminates: a committed event raises \<open>processed\<close> towards
  \<open>max_events\<close>, a discarded one shortens the heap and leaves \<open>processed\<close> alone.\<close>

function run_loop :: "Simulator \<Rightarrow> int \<Rightarrow> error + Simulator" where
  "run_loop s processed =
     (case run_iteration s processed of
        Next s' processed' \<Rightarrow> run_loop s' processed'
      | Stop s' \<Rightarrow> Inr s'
      | Fail err \<Rightarrow> Inl err)"
  by pat_completeness auto
termination
proof (relation "measures [\<lambda>(s, n). nat (max_events (cfg_m s) - n), \<lambda>(s, n). length (pq_m s)]")
  show "wf (measures [\<lambda>(s, n). nat (max_events (cfg_m s) - n), \<lambda>(s, n). length (pq_m s)])"
    by simp
next
  fix s :: Simulator and processed :: int and s' processed'
  assume step: "run_iteration s processed = Next s' processed'"
  have top_in: "q \<noteq> [] \<Longrightarrow> pq_top q \<in> set q" for q
    by (induction q rule: pq_top.induct) (auto simp: Let_def)
  have shorter: "length (pq_pop q) < length q" if "q \<noteq> []" for q
  proof -
    from that have "pq_top q \<in> set q" and "0 < length q"
      by (simp_all add: top_in)
    then show ?thesis
      by (simp add: pq_pop_def length_remove1)
  qed
  have fold_cfg: "cfg_m (fold f ks u) = cfg_m u"
    if "\<And>k u'. cfg_m (f k u') = cfg_m u'" for f :: "nat \<Rightarrow> Simulator \<Rightarrow> Simulator" and ks u
    using that by (induction ks arbitrary: u) simp_all
  have wall_cfg: "cfg_m (schedule_wall_events u i) = cfg_m u" for u i
    by (simp add: schedule_wall_events_def push_def Let_def split: option.splits)
  have pp_cfg: "cfg_m (push_pp_event u i j) = cfg_m u" for u i j
    by (simp add: push_pp_event_def push_def split: option.splits)
  have for_cfg: "cfg_m (schedule_pp_events_for u i) = cfg_m u" for u i
    unfolding schedule_pp_events_for_def by (rule fold_cfg) (rule pp_cfg)
  have switch_cfg: "cfg_m (run_switch u e) = cfg_m u" for u e
    by (cases "type e")
       (simp_all add: run_switch_def Let_def for_cfg wall_cfg fold_cfg pp_cfg
          bounce_wall_x_def bounce_wall_y_def bounce_pp_def)
  have drift_cfg: "cfg_m (drift_to u T) = cfg_m u" for u T
    by (simp add: drift_to_def Let_def)
  have snap_cfg: "cfg_m u' = cfg_m u" if "snapshot u = Inr u'" for u u'
    using that by (auto simp: snapshot_def split: if_splits)
  from step have "cfg_m s' = cfg_m s \<and> processed < max_events (cfg_m s) \<and>
      (processed' = processed \<and> length (pq_m s') < length (pq_m s) \<or> processed' = processed + 1)"
    by (auto simp: run_iteration_def Let_def shorter switch_cfg drift_cfg snap_cfg
             split: if_splits sum.splits)
  then show "((s', processed'), (s, processed))
        \<in> measures [\<lambda>(s, n). nat (max_events (cfg_m s) - n), \<lambda>(s, n). length (pq_m s)]"
    by auto
qed

text \<open>\<^verbatim>\<open>run\<close>: seed, loop, drift to the horizon. The report that \<^verbatim>\<open>run\<close> prints afterwards
  reads \<open>t_m\<close> and \<open>P_m\<close> and changes nothing.\<close>

definition run :: "Simulator \<Rightarrow> error + Simulator" where
  "run s =
     (case run_loop (schedule_all s) 0 of
        Inl err \<Rightarrow> Inl err
      | Inr s' \<Rightarrow> Inr (drift_to s' (T_end (cfg_m s'))))"


section \<open>Quantities and example inputs of the specification\<close>

text \<open>Momentum \<open>m \<cdot> v\<close> and kinetic energy \<open>\<onehalf> m |v|\<^sup>2\<close> of one body.\<close>

definition momentum :: "Particle \<Rightarrow> Vec2" where
  "momentum p = Vec2_mul (v p) (m p)"

definition kinetic_energy :: "Particle \<Rightarrow> real" where
  "kinetic_energy p = 1 / 2 * m p * norm2 (v p)"

text \<open>A body as \<^verbatim>\<open>Particle(Vec2(rx, ry), Vec2(vx, vy), rad, m)\<close> builds it (counter \<open>0\<close>), the
  default \<^verbatim>\<open>SimConfig\<close>, and the simulator the constructor leaves behind.\<close>

definition body :: "real \<Rightarrow> real \<Rightarrow> real \<Rightarrow> real \<Rightarrow> real \<Rightarrow> real \<Rightarrow> Particle" where
  "body rx ry vx vy rd ms =
     \<lparr>r = \<lparr>x = rx, y = ry\<rparr>, v = \<lparr>x = vx, y = vy\<rparr>, rad = rd, m = ms, coll_count = 0\<rparr>"

definition default_cfg :: SimConfig where
  "default_cfg = \<lparr>W = 10, H = 10, T_end = 12, max_events = 2000,
                   enable_rollback = True, rollback_depth = 8\<rparr>"

definition sim_of :: "SimConfig \<Rightarrow> Particle list \<Rightarrow> Simulator" where
  "sim_of cfg init = \<lparr>cfg_m = cfg, P_m = init, t_m = 0, pq_m = [], undo_m = []\<rparr>"

text \<open>A malformed input, in the words of the specification: inverted box dimensions, or a
  body of non-positive radius or non-positive mass.\<close>

definition malformed :: "SimConfig \<Rightarrow> Particle list \<Rightarrow> bool" where
  "malformed c ps = (W c \<le> 0 \<or> H c \<le> 0 \<or> list_ex (\<lambda>p. rad p \<le> 0 \<or> m p \<le> 0) ps)"

text \<open>The configurations on which \<open>snapshot\<close> cannot throw: rollback disabled, or a bound
  that is not negative.\<close>

definition rollback_safe :: "SimConfig \<Rightarrow> bool" where
  "rollback_safe c = (enable_rollback c \<longrightarrow> 0 \<le> rollback_depth c)"

text \<open>Ballistic drift of one body over the time \<open>dt\<close>: position plus velocity times \<open>dt\<close>.\<close>

definition drift_body :: "real \<Rightarrow> Particle \<Rightarrow> Particle" where
  "drift_body dt p = p\<lparr>r := Vec2_add (r p) (Vec2_mul (v p) dt)\<rparr>"

text \<open>A simulator with the rollback settings and the history blanked out: what is left is
  what the trajectory may depend on.\<close>

definition without_rollback :: "Simulator \<Rightarrow> Simulator" where
  "without_rollback s =
     s\<lparr>cfg_m := (cfg_m s)\<lparr>enable_rollback := False, rollback_depth := 0\<rparr>, undo_m := []\<rparr>"

text \<open>The loop of \<open>run\<close> after \<open>k\<close> passes: \<open>Next s n\<close> when it is still running, in
  state \<open>s\<close> with \<open>n\<close> events processed; \<open>Stop\<close> or \<open>Fail\<close> when it has ended by then. These are
  the instants between two passes of the loop.\<close>

fun run_steps :: "nat \<Rightarrow> Simulator \<Rightarrow> int \<Rightarrow> loop_result" where
  "run_steps 0 s n = Next s n"
| "run_steps (Suc k) s n =
     (case run_iteration s n of
        Next s' n' \<Rightarrow> run_steps k s' n'
      | Stop s' \<Rightarrow> Stop s'
      | Fail err \<Rightarrow> Fail err)"

text \<open>An event whose indices are bodies of an array of \<open>n\<close> bodies; the schedulers build no
  other.\<close>

definition event_wf :: "nat \<Rightarrow> Event \<Rightarrow> bool" where
  "event_wf n e =
     (0 \<le> a e \<and> nat (a e) < n \<and> (type e = P_P \<longrightarrow> 0 \<le> b e \<and> nat (b e) < n))"

text \<open>Every counter the event captured equals the current counter of its body (a wall
  event captures one, a pair event two).\<close>

definition counters_match :: "Simulator \<Rightarrow> Event \<Rightarrow> bool" where
  "counters_match s e =
     (coll_count (P_m s ! nat (a e)) = collA e \<and>
      (type e = P_P \<longrightarrow> coll_count (P_m s ! nat (b e)) = collB e))"

text \<open>A body of the event has collided since the event was scheduled: its counter has
  moved past the captured value.\<close>

definition stale :: "Simulator \<Rightarrow> Event \<Rightarrow> bool" where
  "stale s e =
     (collA e < coll_count (P_m s ! nat (a e)) \<or>
      type e = P_P \<and> collB e < coll_count (P_m s ! nat (b e)))"

text \<open>Time, bodies and history are unchanged.\<close>

definition same_state :: "Simulator \<Rightarrow> Simulator \<Rightarrow> bool" where
  "same_state s s' = (t_m s' = t_m s \<and> P_m s' = P_m s \<and> undo_m s' = undo_m s)"

text \<open>A body inside the box: its centre in \<open>[rad, W - rad] \<times> [rad, H - rad]\<close>.\<close>

definition in_box :: "SimConfig \<Rightarrow> Particle \<Rightarrow> bool" where
  "in_box c p =
     (rad p \<le> x (r p) \<and> x (r p) \<le> W c - rad p \<and> rad p \<le> y (r p) \<and> y (r p) \<le> H c - rad p)"

definition all_in_box :: "Simulator \<Rightarrow> bool" where
  "all_in_box s = (\<forall>p \<in> set (P_m s). in_box (cfg_m s) p)"

text \<open>No pending event lies before the current time.\<close>

definition pending_not_past :: "Simulator \<Rightarrow> bool" where
  "pending_not_past s = (\<forall>e \<in> set (pq_m s). t_m s \<le> t e)"

text \<open>The invariant of the loop, in pieces. Every pending event names bodies; a scheduler
  only adds events (\<open>adds\<close>), each naming bodies and, when all bodies are inside the box, not
  before the current time (\<open>good\<close>); and every wall hit that a body is heading for within
  the horizon is pending, with the body's current counter (\<open>covered\<close>).\<close>

definition events_wf :: "Simulator \<Rightarrow> bool" where
  "events_wf s = (\<forall>e \<in> set (pq_m s). event_wf (length (P_m s)) e)"

definition good :: "Simulator \<Rightarrow> Event \<Rightarrow> bool" where
  "good s e = (event_wf (length (P_m s)) e \<and> (all_in_box s \<longrightarrow> t_m s \<le> t e))"

definition adds :: "Simulator \<Rightarrow> Simulator \<Rightarrow> bool" where
  "adds s s' =
     (cfg_m s' = cfg_m s \<and> P_m s' = P_m s \<and> t_m s' = t_m s \<and> undo_m s' = undo_m s \<and>
      set (pq_m s) \<subseteq> set (pq_m s') \<and> (\<forall>e \<in> set (pq_m s'). e \<in> set (pq_m s) \<or> good s e))"

definition wall_x_event :: "Simulator \<Rightarrow> nat \<Rightarrow> real \<Rightarrow> Event" where
  "wall_x_event s i d =
     \<lparr>t = t_m s + d, a = int i, b = - 1, type = P_WALL_X,
      collA = coll_count (P_m s ! i), collB = - 1\<rparr>"

definition wall_y_event :: "Simulator \<Rightarrow> nat \<Rightarrow> real \<Rightarrow> Event" where
  "wall_y_event s i d =
     \<lparr>t = t_m s + d, a = int i, b = - 1, type = P_WALL_Y,
      collA = coll_count (P_m s ! i), collB = - 1\<rparr>"

definition covered :: "Simulator \<Rightarrow> nat \<Rightarrow> bool" where
  "covered s i =
     ((\<forall>d. time_to_wall_x (cfg_m s) (P_m s ! i) = Some d \<and> t_m s + d \<le> T_end (cfg_m s)
            \<longrightarrow> wall_x_event s i d \<in> set (pq_m s)) \<and>
      (\<forall>d. time_to_wall_y (cfg_m s) (P_m s ! i) = Some d \<and> t_m s + d \<le> T_end (cfg_m s)
            \<longrightarrow> wall_y_event s i d \<in> set (pq_m s)))"

definition loop_inv :: "Simulator \<Rightarrow> bool" where
  "loop_inv s =
     (all_in_box s \<and> pending_not_past s \<and> events_wf s \<and> (\<forall>i < length (P_m s). covered s i))"

text \<open>A run used as an example: one body heading for the upper right corner of the default
  box reaches the right wall and the upper wall at the same time \<open>9/2\<close>. After the first
  pass of the loop (the bounce off the right wall) the state is \<open>corner_state\<close>: the event
  for the upper wall scheduled at time \<open>0\<close> is still pending, and so is the one scheduled
  again after the bounce, with the new counter.\<close>

definition first_wall_y :: Event where
  "first_wall_y = \<lparr>t = 9/2, a = 0, b = - 1, type = P_WALL_Y, collA = 0, collB = - 1\<rparr>"

definition second_wall_y :: Event where
  "second_wall_y = \<lparr>t = 9/2, a = 0, b = - 1, type = P_WALL_Y, collA = 1, collB = - 1\<rparr>"

definition corner_state :: Simulator where
  "corner_state =
     \<lparr>cfg_m = default_cfg,
      P_m = [\<lparr>r = \<lparr>x = 19/2, y = 19/2\<rparr>, v = \<lparr>x = - 1, y = 1\<rparr>, rad = 1/2, m = 1,
               coll_count = 1\<rparr>],
      t_m = 9/2,
      pq_m = [first_wall_y, second_wall_y],
      undo_m = [\<lparr>t_S = 0, P_S = [body 5 5 1 1 (1/2) 1]\<rparr>]\<rparr>"


section \<open>Basic facts about the operations\<close>

declare run_loop.simps [simp del]

subsection \<open>Frame lemmas: what each operation leaves alone\<close>

lemma push_fields [simp]:
  "cfg_m (push s e) = cfg_m s" "P_m (push s e) = P_m s" "t_m (push s e) = t_m s"
  "undo_m (push s e) = undo_m s" "pq_m (push s e) = pq_m s @ [e]"
  by (simp_all add: push_def pq_push_def)

lemma schedule_wall_events_fields [simp]:
  "cfg_m (schedule_wall_events s i) = cfg_m s" "P_m (schedule_wall_events s i) = P_m s"
  "t_m (schedule_wall_events s i) = t_m s" "undo_m (schedule_wall_events s i) = undo_m s"
  by (simp_all add: schedule_wall_events_def Let_def split: option.splits)

lemma push_pp_event_fields [simp]:
  "cfg_m (push_pp_event s i j) = cfg_m s" "P_m (push_pp_event s i j) = P_m s"
  "t_m (push_pp_event s i j) = t_m s" "undo_m (push_pp_event s i j) = undo_m s"
  by (simp_all add: push_pp_event_def split: option.splits)

lemma fold_push_pp_event_fields [simp]:
  "cfg_m (fold (\<lambda>j s'. push_pp_event s' i j) js s) = cfg_m s"
  "P_m (fold (\<lambda>j s'. push_pp_event s' i j) js s) = P_m s"
  "t_m (fold (\<lambda>j s'. push_pp_event s' i j) js s) = t_m s"
  "undo_m (fold (\<lambda>j s'. push_pp_event s' i j) js s) = undo_m s"
  by (induction js arbitrary: s; simp)+

lemma schedule_pp_events_for_fields [simp]:
  "cfg_m (schedule_pp_events_for s i) = cfg_m s" "P_m (schedule_pp_events_for s i) = P_m s"
  "t_m (schedule_pp_events_for s i) = t_m s" "undo_m (schedule_pp_events_for s i) = undo_m s"
  by (simp_all add: schedule_pp_events_for_def)

lemma fold_schedule_wall_events_fields [simp]:
  "cfg_m (fold (\<lambda>i s'. schedule_wall_events s' i) js s) = cfg_m s"
  "P_m (fold (\<lambda>i s'. schedule_wall_events s' i) js s) = P_m s"
  "t_m (fold (\<lambda>i s'. schedule_wall_events s' i) js s) = t_m s"
  "undo_m (fold (\<lambda>i s'. schedule_wall_events s' i) js s) = undo_m s"
  by (induction js arbitrary: s; simp)+

lemma fold_schedule_pp_events_for_fields [simp]:
  "cfg_m (fold (\<lambda>i s'. schedule_pp_events_for s' i) js s) = cfg_m s"
  "P_m (fold (\<lambda>i s'. schedule_pp_events_for s' i) js s) = P_m s"
  "t_m (fold (\<lambda>i s'. schedule_pp_events_for s' i) js s) = t_m s"
  "undo_m (fold (\<lambda>i s'. schedule_pp_events_for s' i) js s) = undo_m s"
  by (induction js arbitrary: s; simp)+

lemma schedule_all_fields [simp]:
  "cfg_m (schedule_all s) = cfg_m s" "P_m (schedule_all s) = P_m s"
  "t_m (schedule_all s) = t_m s" "undo_m (schedule_all s) = undo_m s"
  by (simp_all add: schedule_all_def Let_def)

lemma drift_to_fields [simp]:
  "cfg_m (drift_to s T) = cfg_m s" "pq_m (drift_to s T) = pq_m s"
  "undo_m (drift_to s T) = undo_m s" "length (P_m (drift_to s T)) = length (P_m s)"
  by (simp_all add: drift_to_def Let_def)

lemma bounce_wall_x_fields [simp]:
  "cfg_m (bounce_wall_x s i) = cfg_m s" "pq_m (bounce_wall_x s i) = pq_m s"
  "t_m (bounce_wall_x s i) = t_m s" "undo_m (bounce_wall_x s i) = undo_m s"
  "length (P_m (bounce_wall_x s i)) = length (P_m s)"
  by (simp_all add: bounce_wall_x_def Let_def)

lemma bounce_wall_y_fields [simp]:
  "cfg_m (bounce_wall_y s i) = cfg_m s" "pq_m (bounce_wall_y s i) = pq_m s"
  "t_m (bounce_wall_y s i) = t_m s" "undo_m (bounce_wall_y s i) = undo_m s"
  "length (P_m (bounce_wall_y s i)) = length (P_m s)"
  by (simp_all add: bounce_wall_y_def Let_def)

lemma bounce_pp_fields [simp]:
  "cfg_m (bounce_pp s i j) = cfg_m s" "pq_m (bounce_pp s i j) = pq_m s"
  "t_m (bounce_pp s i j) = t_m s" "undo_m (bounce_pp s i j) = undo_m s"
  "length (P_m (bounce_pp s i j)) = length (P_m s)"
  by (simp_all add: bounce_pp_def Let_def)

lemma fold_pair_loop_fields [simp]:
  "cfg_m (fold (\<lambda>k s'. if k = ia \<or> k = ib then s'
        else push_pp_event (push_pp_event s' (min k ia) (max k ia)) (min k ib) (max k ib)) ks s)
     = cfg_m s"
  "P_m (fold (\<lambda>k s'. if k = ia \<or> k = ib then s'
        else push_pp_event (push_pp_event s' (min k ia) (max k ia)) (min k ib) (max k ib)) ks s)
     = P_m s"
  "t_m (fold (\<lambda>k s'. if k = ia \<or> k = ib then s'
        else push_pp_event (push_pp_event s' (min k ia) (max k ia)) (min k ib) (max k ib)) ks s)
     = t_m s"
  "undo_m (fold (\<lambda>k s'. if k = ia \<or> k = ib then s'
        else push_pp_event (push_pp_event s' (min k ia) (max k ia)) (min k ib) (max k ib)) ks s)
     = undo_m s"
  by (induction ks arbitrary: s; simp)+

lemma run_switch_fields [simp]:
  "cfg_m (run_switch s e) = cfg_m s" "t_m (run_switch s e) = t_m s"
  "undo_m (run_switch s e) = undo_m s" "length (P_m (run_switch s e)) = length (P_m s)"
  by (simp_all add: run_switch_def Let_def split: EventType.splits)

lemma snapshot_fields:
  assumes "snapshot s = Inr s'"
  shows "cfg_m s' = cfg_m s" "P_m s' = P_m s" "t_m s' = t_m s" "pq_m s' = pq_m s"
  using assms by (auto simp: snapshot_def split: if_splits)

subsection \<open>The pending set\<close>

lemma pq_top_in: "q \<noteq> [] \<Longrightarrow> pq_top q \<in> set q"
  by (induction q rule: pq_top.induct) (auto simp: Let_def)

lemma pq_top_least: "e \<in> set q \<Longrightarrow> t (pq_top q) \<le> t e"
  by (induction q rule: pq_top.induct) (auto simp: Let_def)

lemma length_pq_pop: "q \<noteq> [] \<Longrightarrow> length (pq_pop q) < length q"
proof -
  assume "q \<noteq> []"
  then have "pq_top q \<in> set q" and "0 < length q"
    by (simp_all add: pq_top_in)
  then show ?thesis
    by (simp add: pq_pop_def length_remove1)
qed

lemma set_pq_pop: "set (pq_pop q) \<subseteq> set q"
  by (simp add: pq_pop_def set_remove1_subset)

lemma pq_push_set [simp]: "set (pq_push q e) = insert e (set q)"
  by (simp add: pq_push_def)

lemma valid_pq [simp]: "valid (s\<lparr>pq_m := q\<rparr>) e = valid s e"
  by (simp add: valid_def)

lemma run_iteration_cfg:
  assumes "run_iteration s n = Next s' n'"
  shows "cfg_m s' = cfg_m s"
  using assms
  by (auto simp: run_iteration_def Let_def snapshot_fields split: if_splits sum.splits)

subsection \<open>The three ways through the loop body\<close>

lemma run_iteration_stop:
  assumes "pq_m s = [] \<or> \<not> n < max_events (cfg_m s)"
  shows "run_iteration s n = Stop s"
  using assms by (auto simp: run_iteration_def)

lemma run_iteration_break:
  assumes "pq_m s \<noteq> []" and "n < max_events (cfg_m s)"
    and "t (pq_top (pq_m s)) > T_end (cfg_m s)"
  shows "run_iteration s n = Stop (s\<lparr>pq_m := pq_pop (pq_m s)\<rparr>)"
  using assms by (simp add: run_iteration_def Let_def)

lemma run_iteration_stale:
  assumes "pq_m s \<noteq> []" and "n < max_events (cfg_m s)"
    and "t (pq_top (pq_m s)) \<le> T_end (cfg_m s)"
    and "\<not> valid s (pq_top (pq_m s))"
  shows "run_iteration s n = Next (s\<lparr>pq_m := pq_pop (pq_m s)\<rparr>) n"
  using assms by (simp add: run_iteration_def Let_def)

lemma run_iteration_commit:
  assumes "pq_m s \<noteq> []" and "n < max_events (cfg_m s)"
    and "t (pq_top (pq_m s)) \<le> T_end (cfg_m s)"
    and "valid s (pq_top (pq_m s))"
  shows "run_iteration s n =
           (case snapshot (s\<lparr>pq_m := pq_pop (pq_m s)\<rparr>) of
              Inl err \<Rightarrow> Fail err
            | Inr s2 \<Rightarrow> Next (run_switch (drift_to s2 (t (pq_top (pq_m s)))) (pq_top (pq_m s)))
                            (n + 1))"
  using assms by (simp add: run_iteration_def Let_def)

lemma run_loop_Stop: "run_iteration s n = Stop s' \<Longrightarrow> run_loop s n = Inr s'"
  by (subst run_loop.simps) simp

lemma run_loop_Next: "run_iteration s n = Next s' n' \<Longrightarrow> run_loop s n = run_loop s' n'"
  by (subst run_loop.simps) simp

lemma run_loop_Fail: "run_iteration s n = Fail err \<Longrightarrow> run_loop s n = Inl err"
  by (subst run_loop.simps) simp


section \<open>The pair bounce\<close>

lemma bounce_pp_nth:
  assumes "i < length (P_m s)" and "j < length (P_m s)" and "i \<noteq> j"
    and "0 < norm2 (Vec2_sub (r (P_m s ! j)) (r (P_m s ! i)))"
  defines "J \<equiv> Vec2_mul (Vec2_mul (Vec2_sub (r (P_m s ! j)) (r (P_m s ! i)))
                   (dot (Vec2_sub (v (P_m s ! j)) (v (P_m s ! i)))
                        (Vec2_sub (r (P_m s ! j)) (r (P_m s ! i)))
                    / norm2 (Vec2_sub (r (P_m s ! j)) (r (P_m s ! i)))))
                 (2 * m (P_m s ! i) * m (P_m s ! j) / (m (P_m s ! i) + m (P_m s ! j)))"
  shows "P_m (bounce_pp s i j) ! i
           = (P_m s ! i)\<lparr>v := Vec2_add (v (P_m s ! i)) (Vec2_mul J (- 1 / m (P_m s ! i))),
                          coll_count := coll_count (P_m s ! i) + 1\<rparr>"
    and "P_m (bounce_pp s i j) ! j
           = (P_m s ! j)\<lparr>v := Vec2_add (v (P_m s ! j)) (Vec2_mul J (1 / m (P_m s ! j))),
                          coll_count := coll_count (P_m s ! j) + 1\<rparr>"
  using assms(1-4) unfolding J_def bounce_pp_def Let_def by simp_all

text \<open>
  Claim C3. For two bodies of positive mass, the pair bounce leaves the total momentum
  \<open>m\<^sub>A v\<^sub>A + m\<^sub>B v\<^sub>B\<close> of the pair unchanged, over exact real arithmetic. (When the centres
  coincide the bounce is skipped and nothing changes, so that case needs no hypothesis.)
\<close>

theorem bounce_pp_momentum:
  assumes "i < length (P_m s)" and "j < length (P_m s)"
    and "0 < m (P_m s ! i)" and "0 < m (P_m s ! j)"
  shows "Vec2_add (momentum (P_m (bounce_pp s i j) ! i)) (momentum (P_m (bounce_pp s i j) ! j))
       = Vec2_add (momentum (P_m s ! i)) (momentum (P_m s ! j))"
proof (cases "i \<noteq> j \<and> 0 < norm2 (Vec2_sub (r (P_m s ! j)) (r (P_m s ! i)))")
  case False
  then have "bounce_pp s i j = s"
    by (auto simp: bounce_pp_def Let_def Vec2_sub_def norm2_def)
  then show ?thesis
    by simp
next
  case True
  then have ij: "i \<noteq> j" and d: "0 < norm2 (Vec2_sub (r (P_m s ! j)) (r (P_m s ! i)))"
    by simp_all
  have nz: "m (P_m s ! i) + m (P_m s ! j) \<noteq> 0"
      "norm2 (Vec2_sub (r (P_m s ! j)) (r (P_m s ! i))) \<noteq> 0"
      "m (P_m s ! i) \<noteq> 0" "m (P_m s ! j) \<noteq> 0"
    using assms(3,4) d by simp_all
  show ?thesis
    unfolding bounce_pp_nth [OF assms(1,2) ij d] momentum_def Vec2_add_def
    using nz by (simp add: Vec2_mul_def field_simps)
qed

theorem bounce_pp_momentum_witness:
  "0 < length (P_m (sim_of default_cfg [body 0 0 1 0 (1/2) 1, body 1 0 0 0 (1/2) 3]))
   \<and> 1 < length (P_m (sim_of default_cfg [body 0 0 1 0 (1/2) 1, body 1 0 0 0 (1/2) 3]))
   \<and> 0 < m (P_m (sim_of default_cfg [body 0 0 1 0 (1/2) 1, body 1 0 0 0 (1/2) 3]) ! 0)
   \<and> 0 < m (P_m (sim_of default_cfg [body 0 0 1 0 (1/2) 1, body 1 0 0 0 (1/2) 3]) ! 1)
   \<and> Vec2_add
        (momentum (P_m (bounce_pp (sim_of default_cfg
            [body 0 0 1 0 (1/2) 1, body 1 0 0 0 (1/2) 3]) 0 1) ! 0))
        (momentum (P_m (bounce_pp (sim_of default_cfg
            [body 0 0 1 0 (1/2) 1, body 1 0 0 0 (1/2) 3]) 0 1) ! 1))
      = \<lparr>x = 1, y = 0\<rparr>"
  using bounce_pp_momentum [of 0 "sim_of default_cfg [body 0 0 1 0 (1/2) 1, body 1 0 0 0 (1/2) 3]" 1]
  by (simp add: sim_of_def body_def momentum_def Vec2_add_def Vec2_mul_def)

lemma energy_gain_arith:
  fixes mA mB ux uy wx wy dx dy :: real
  assumes "0 < mA" and "0 < mB" and "0 < dx * dx + dy * dy"
  defines "c \<equiv> ((wx - ux) * dx + (wy - uy) * dy) / (dx * dx + dy * dy)"
  defines "k \<equiv> 2 * mA * mB / (mA + mB)"
  shows "1 / 2 * mA * ((ux + dx * c * k * (- 1 / mA)) * (ux + dx * c * k * (- 1 / mA))
                      + (uy + dy * c * k * (- 1 / mA)) * (uy + dy * c * k * (- 1 / mA)))
       + 1 / 2 * mB * ((wx + dx * c * k * (1 / mB)) * (wx + dx * c * k * (1 / mB))
                      + (wy + dy * c * k * (1 / mB)) * (wy + dy * c * k * (1 / mB)))
       = 1 / 2 * mA * (ux * ux + uy * uy) + 1 / 2 * mB * (wx * wx + wy * wy)
         + 4 * (mA * mB / (mA + mB)) * ((wx - ux) * dx + (wy - uy) * dy)\<^sup>2 / (dx * dx + dy * dy)"
proof -
  let ?D = "dx * dx + dy * dy"
  let ?n = "(wx - ux) * dx + (wy - uy) * dy"
  have D: "?D \<noteq> 0" and M: "mA + mB \<noteq> 0" "mA \<noteq> 0" "mB \<noteq> 0"
    using assms by auto
  have cD: "c * ?D = ?n"
    using D by (simp add: c_def)
  have "1 / mA + 1 / mB = (mA + mB) / (mA * mB)"
    using M by (simp add: field_simps)
  then have kM: "k * (1 / mA + 1 / mB) = 2"
    using M by (simp add: k_def)
  have lhs: "1 / 2 * mA * ((ux + dx * c * k * (- 1 / mA)) * (ux + dx * c * k * (- 1 / mA))
                      + (uy + dy * c * k * (- 1 / mA)) * (uy + dy * c * k * (- 1 / mA)))
       + 1 / 2 * mB * ((wx + dx * c * k * (1 / mB)) * (wx + dx * c * k * (1 / mB))
                      + (wy + dy * c * k * (1 / mB)) * (wy + dy * c * k * (1 / mB)))
       = 1 / 2 * mA * (ux * ux + uy * uy) + 1 / 2 * mB * (wx * wx + wy * wy)
         + c * k * ?n + 1 / 2 * c * c * k * (k * (1 / mA + 1 / mB)) * ?D"
    using M by (simp add: field_simps power2_eq_square)
  have "1 / 2 * c * c * k * 2 * ?D = c * k * (c * ?D)"
    by simp
  then have "c * k * ?n + 1 / 2 * c * c * k * (k * (1 / mA + 1 / mB)) * ?D = 2 * k * (c * ?n)"
    unfolding kM cD by simp
  also have "c * ?n = ?n\<^sup>2 / ?D"
    by (simp add: c_def power2_eq_square)
  also have "2 * k * (?n\<^sup>2 / ?D) = 4 * (mA * mB / (mA + mB)) * ?n\<^sup>2 / ?D"
    by (simp add: k_def)
  finally show ?thesis
    using lhs by simp
qed

lemma norm2_sub_pos:
  assumes "p \<noteq> q"
  shows "0 < norm2 (Vec2_sub q p)"
proof -
  have "x q - x p \<noteq> 0 \<or> y q - y p \<noteq> 0"
    using assms by (auto intro: Vec2.equality)
  then have "0 < (x q - x p) * (x q - x p) + (y q - y p) * (y q - y p)"
    by (metis add_pos_nonneg add_nonneg_pos zero_le_square not_real_square_gt_zero)
  then show ?thesis
    by (simp add: norm2_def Vec2_sub_def)
qed

lemma bounce_pp_energy_gain:
  assumes "i < length (P_m s)" and "j < length (P_m s)" and "i \<noteq> j"
    and "0 < m (P_m s ! i)" and "0 < m (P_m s ! j)"
    and "r (P_m s ! i) \<noteq> r (P_m s ! j)"
  shows "kinetic_energy (P_m (bounce_pp s i j) ! i) + kinetic_energy (P_m (bounce_pp s i j) ! j)
       = kinetic_energy (P_m s ! i) + kinetic_energy (P_m s ! j)
         + 4 * (m (P_m s ! i) * m (P_m s ! j) / (m (P_m s ! i) + m (P_m s ! j)))
             * (dot (Vec2_sub (v (P_m s ! j)) (v (P_m s ! i))) (Vec2_sub (r (P_m s ! j)) (r (P_m s ! i))))\<^sup>2
             / norm2 (Vec2_sub (r (P_m s ! j)) (r (P_m s ! i)))"
proof -
  have d: "0 < norm2 (Vec2_sub (r (P_m s ! j)) (r (P_m s ! i)))"
    using assms(6) by (rule norm2_sub_pos)
  then have pos: "0 < x (Vec2_sub (r (P_m s ! j)) (r (P_m s ! i))) * x (Vec2_sub (r (P_m s ! j)) (r (P_m s ! i)))
                + y (Vec2_sub (r (P_m s ! j)) (r (P_m s ! i))) * y (Vec2_sub (r (P_m s ! j)) (r (P_m s ! i)))"
    by (simp add: norm2_def)
  have eq: "kinetic_energy (p\<lparr>v := Vec2_add (v p) (Vec2_mul (Vec2_mul (Vec2_mul dr c) k) f),
                               coll_count := n\<rparr>)
          = 1 / 2 * m p * ((x (v p) + x dr * c * k * f) * (x (v p) + x dr * c * k * f)
                         + (y (v p) + y dr * c * k * f) * (y (v p) + y dr * c * k * f))"
    for p dr c k f n
    by (simp add: kinetic_energy_def norm2_def Vec2_add_def Vec2_mul_def)
  have eq0: "kinetic_energy p = 1 / 2 * m p * (x (v p) * x (v p) + y (v p) * y (v p))" for p
    by (simp add: kinetic_energy_def norm2_def)
  have dt: "dot (Vec2_sub q p) dr = (x q - x p) * x dr + (y q - y p) * y dr" for p q dr
    by (simp add: dot_def Vec2_sub_def)
  have n2: "norm2 dr = x dr * x dr + y dr * y dr" for dr
    by (simp add: norm2_def)
  show ?thesis
    unfolding bounce_pp_nth [OF assms(1,2,3) d] eq
    unfolding eq0 dt n2
    by (rule energy_gain_arith [OF assms(4,5) pos])
qed

text \<open>
  Claim C1. The claim is that the pair bounce conserves the total kinetic energy. The code
  adds the impulse to \<open>A\<close> with the factor \<open>-1 / m\<^sub>A\<close> and to \<open>B\<close> with \<open>1 / m\<^sub>B\<close> while
  \<open>dr\<close> points from \<open>A\<close> to \<open>B\<close>: the sign is the opposite of the elastic one, and by
  \<open>bounce_pp_energy_gain\<close> the energy grows whenever the bodies approach or separate along
  the line of centres. Here a unit body moving at speed \<open>1\<close> hits a unit body at rest:
  the energy before is \<open>1/2\<close>, after it is \<open>5/2\<close>.
\<close>

theorem bounce_pp_energy_example:
  "kinetic_energy (P_m (bounce_pp (sim_of default_cfg [body 0 0 1 0 (1/2) 1, body 1 0 0 0 (1/2) 1]) 0 1) ! 0)
   + kinetic_energy (P_m (bounce_pp (sim_of default_cfg [body 0 0 1 0 (1/2) 1, body 1 0 0 0 (1/2) 1]) 0 1) ! 1) = 5 / 2
   \<and> kinetic_energy (body 0 0 1 0 (1/2) 1) + kinetic_energy (body 1 0 0 0 (1/2) 1) = 1 / 2"
  by (simp add: bounce_pp_def sim_of_def body_def Let_def kinetic_energy_def norm2_def dot_def
      Vec2_sub_def Vec2_add_def Vec2_mul_def)


section \<open>Construction, snapshots and undo\<close>

text \<open>
  Claim C4. The claim is that a malformed configuration or body list is rejected at
  construction. The constructor validates nothing: here a box of width \<open>-10\<close> and a body of
  radius \<open>-1\<close> and mass \<open>0\<close> are accepted and stored.
\<close>

theorem Simulator_init_accepts_malformed:
  "malformed (default_cfg\<lparr>W := - 10\<rparr>) [body 5 5 1 0 (- 1) 0]
   \<and> Simulator_init (default_cfg\<lparr>W := - 10\<rparr>) [body 5 5 1 0 (- 1) 0]
     = Inr (sim_of (default_cfg\<lparr>W := - 10\<rparr>) [body 5 5 1 0 (- 1) 0])"
  by (simp add: malformed_def Simulator_init_def sim_of_def body_def default_cfg_def)

text \<open>
  Claim C4, amended. Construction never fails: for every configuration and every body list,
  well-formed or not, it yields the simulator holding them unchanged, at time \<open>0\<close>, with no
  pending event and no snapshot. Validation is left to the caller.
\<close>

theorem Simulator_init_never_fails:
  "Simulator_init cfg init = Inr \<lparr>cfg_m = cfg, P_m = init, t_m = 0, pq_m = [], undo_m = []\<rparr>"
  by (simp add: Simulator_init_def)

text \<open>With rollback enabled and a bound of at least one, a stack within the bound stays
  within it: a full stack loses its oldest snapshot (the last of the list) before the push.\<close>

lemma snapshot_bounded:
  assumes "enable_rollback (cfg_m s)" and "1 \<le> rollback_depth (cfg_m s)"
    and "int (length (undo_m s)) \<le> rollback_depth (cfg_m s)"
  shows "\<exists>s'. snapshot s = Inr s'
            \<and> int (length (undo_m s')) \<le> rollback_depth (cfg_m s')
            \<and> undo_m s' = \<lparr>t_S = t_m s, P_S = P_m s\<rparr>
                  # (if int (length (undo_m s)) = rollback_depth (cfg_m s)
                     then butlast (undo_m s) else undo_m s)"
  using assms by (cases "undo_m s") (auto simp: snapshot_def)

text \<open>So with a bound of at least one the history stays within the bound throughout the
  loop, and the loop raises no exception.\<close>

lemma run_iteration_history_bounded:
  assumes "1 \<le> rollback_depth (cfg_m s)"
    and "int (length (undo_m s)) \<le> rollback_depth (cfg_m s)"
  shows "case run_iteration s n of
           Next s' n' \<Rightarrow> cfg_m s' = cfg_m s
                          \<and> int (length (undo_m s')) \<le> rollback_depth (cfg_m s)
         | Stop s' \<Rightarrow> int (length (undo_m s')) \<le> rollback_depth (cfg_m s)
         | Fail err \<Rightarrow> False"
proof -
  let ?s1 = "s\<lparr>pq_m := pq_pop (pq_m s)\<rparr>"
  have "\<exists>s2. snapshot ?s1 = Inr s2 \<and> cfg_m s2 = cfg_m s
              \<and> int (length (undo_m s2)) \<le> rollback_depth (cfg_m s)"
  proof (cases "enable_rollback (cfg_m s)")
    case True
    with assms snapshot_bounded [of ?s1] show ?thesis
      by (auto simp: snapshot_fields)
  next
    case False
    with assms(2) show ?thesis
      by (simp add: snapshot_def)
  qed
  then obtain s2 where "snapshot ?s1 = Inr s2" "cfg_m s2 = cfg_m s"
    "int (length (undo_m s2)) \<le> rollback_depth (cfg_m s)"
    by blast
  with assms(2) show ?thesis
    by (simp add: run_iteration_def Let_def)
qed

lemma run_steps_history_bounded:
  assumes "1 \<le> rollback_depth (cfg_m s)"
    and "int (length (undo_m s)) \<le> rollback_depth (cfg_m s)"
  shows "case run_steps k s n of
           Next s' n' \<Rightarrow> int (length (undo_m s')) \<le> rollback_depth (cfg_m s)
         | Stop s' \<Rightarrow> int (length (undo_m s')) \<le> rollback_depth (cfg_m s)
         | Fail err \<Rightarrow> False"
  using assms
proof (induction k arbitrary: s n)
  case 0
  then show ?case
    by simp
next
  case (Suc k)
  note it = run_iteration_history_bounded [OF Suc.prems, of n]
  show ?case
  proof (cases "run_iteration s n")
    case (Next u j)
    with it have "cfg_m u = cfg_m s" "int (length (undo_m u)) \<le> rollback_depth (cfg_m s)"
      by simp_all
    with Suc.IH [of u j] Suc.prems(1) Next show ?thesis
      by (cases "run_steps k u j") simp_all
  next
    case (Stop u)
    with it show ?thesis
      by simp
  next
    case (Fail err)
    with it show ?thesis
      by simp
  qed
qed

text \<open>
  Claim C5. The claim is that the stack never holds more snapshots than \<open>rollback_depth\<close>, for
  every value of it. With \<open>rollback_depth = 0\<close> the trim finds nothing to remove and the push
  still happens: after the one committed event of this run (a body hitting the right wall
  at time \<open>9/2\<close>) the stack holds one snapshot.
\<close>

theorem snapshot_depth_zero_run:
  "run (sim_of (default_cfg\<lparr>rollback_depth := 0\<rparr>) [body 5 5 1 0 (1/2) 1])
   = Inr \<lparr>cfg_m = default_cfg\<lparr>rollback_depth := 0\<rparr>,
      P_m = [\<lparr>r = \<lparr>x = 2, y = 5\<rparr>, v = \<lparr>x = - 1, y = 0\<rparr>, rad = 1/2, m = 1, coll_count = 1\<rparr>],
      t_m = 12, pq_m = [],
      undo_m = [\<lparr>t_S = 0, P_S = [body 5 5 1 0 (1/2) 1]\<rparr>]\<rparr>"
proof -
  let ?c = "default_cfg\<lparr>rollback_depth := 0\<rparr>"
  let ?e = "\<lparr>t = 9/2, a = 0, b = - 1, type = P_WALL_X, collA = 0, collB = - 1\<rparr>"
  let ?s0 = "\<lparr>cfg_m = ?c, P_m = [body 5 5 1 0 (1/2) 1], t_m = 0, pq_m = [?e], undo_m = []\<rparr>"
  let ?u = "[\<lparr>t_S = 0, P_S = [body 5 5 1 0 (1/2) 1]\<rparr>]"
  let ?s2 = "\<lparr>cfg_m = ?c, P_m = [body 5 5 1 0 (1/2) 1], t_m = 0, pq_m = [], undo_m = ?u\<rparr>"
  let ?s3 = "\<lparr>cfg_m = ?c, P_m = [body (19/2) 5 1 0 (1/2) 1], t_m = 9/2, pq_m = [], undo_m = ?u\<rparr>"
  let ?s4 = "\<lparr>cfg_m = ?c,
      P_m = [\<lparr>r = \<lparr>x = 19/2, y = 5\<rparr>, v = \<lparr>x = - 1, y = 0\<rparr>, rad = 1/2, m = 1, coll_count = 1\<rparr>],
      t_m = 9/2, pq_m = [], undo_m = ?u\<rparr>"
  have seed: "schedule_all (sim_of ?c [body 5 5 1 0 (1/2) 1]) = ?s0"
    by (simp add: schedule_all_def schedule_wall_events_def schedule_pp_events_for_def
        push_def pq_push_def time_to_wall_x_def time_to_wall_y_def sim_of_def body_def default_cfg_def Let_def)
  have snap: "snapshot (?s0\<lparr>pq_m := pq_pop (pq_m ?s0)\<rparr>) = Inr ?s2"
    by (simp add: snapshot_def pq_pop_def default_cfg_def)
  have drift: "drift_to ?s2 (9/2) = ?s3"
    by (simp add: drift_to_def body_def Vec2_add_def Vec2_mul_def Let_def)
  have bounce: "bounce_wall_x ?s3 0 = ?s4"
    by (simp add: bounce_wall_x_def body_def)
  have wall: "schedule_wall_events ?s4 0 = ?s4"
    by (simp add: schedule_wall_events_def time_to_wall_x_def time_to_wall_y_def
        default_cfg_def Let_def)
  have pp: "schedule_pp_events_for ?s4 0 = ?s4"
    by (simp add: schedule_pp_events_for_def)
  have "run_switch ?s3 ?e
          = schedule_pp_events_for (schedule_wall_events (bounce_wall_x ?s3 0) 0) 0"
    by (simp add: run_switch_def)
  then have sw: "run_switch ?s3 ?e = ?s4"
    by (simp only: bounce wall pp)
  have top: "pq_top (pq_m ?s0) = ?e" and te: "t ?e = 9/2"
    by simp_all
  have "run_iteration ?s0 0 =
      (case snapshot (?s0\<lparr>pq_m := pq_pop (pq_m ?s0)\<rparr>) of
         Inl err \<Rightarrow> Fail err
       | Inr s2 \<Rightarrow> Next (run_switch (drift_to s2 (t (pq_top (pq_m ?s0)))) (pq_top (pq_m ?s0)))
                       (0 + 1))"
    by (rule run_iteration_commit) (simp_all add: valid_def body_def default_cfg_def)
  then have "run_iteration ?s0 0 = Next ?s4 1"
    unfolding snap top te sum.case drift sw by simp
  then have "run_loop ?s0 0 = run_loop ?s4 1"
    by (rule run_loop_Next)
  also have "\<dots> = Inr ?s4"
    by (rule run_loop_Stop) (simp add: run_iteration_stop)
  finally show ?thesis
    unfolding run_def seed by (simp add: drift_to_def Vec2_add_def Vec2_mul_def default_cfg_def)
qed

text \<open>
  Claim C6. \<open>undo\<close> returns false and changes nothing when rollback is disabled or the stack is
  empty. Otherwise it returns true; the result is the re-seeding of the state that has the
  time and the bodies of the top snapshot, the rest of the stack, and no pending event, so
  that: time and bodies are those of the snapshot (every field, the bodies being copied
  whole), the snapshot is gone from the stack, and the pending events are exactly those a
  fresh seed of the restored state produces, whatever was pending before.
\<close>

theorem undo_spec:
  "(\<not> enable_rollback (cfg_m s) \<or> undo_m s = [] \<longrightarrow> undo s = (False, s)) \<and>
   (enable_rollback (cfg_m s) \<and> undo_m s = st # rest \<longrightarrow>
      undo s = (True, schedule_all
                 \<lparr>cfg_m = cfg_m s, P_m = P_S st, t_m = t_S st, pq_m = [], undo_m = rest\<rparr>) \<and>
      t_m (snd (undo s)) = t_S st \<and>
      P_m (snd (undo s)) = P_S st \<and>
      undo_m (snd (undo s)) = rest \<and>
      cfg_m (snd (undo s)) = cfg_m s)"
proof (intro conjI impI)
  assume "\<not> enable_rollback (cfg_m s) \<or> undo_m s = []"
  then show "undo s = (False, s)"
    by (auto simp: undo_def)
next
  assume h: "enable_rollback (cfg_m s) \<and> undo_m s = st # rest"
  have "schedule_all (s\<lparr>undo_m := rest, t_m := t_S st, P_m := P_S st, pq_m := []\<rparr>)
        = schedule_all \<lparr>cfg_m = cfg_m s, P_m = P_S st, t_m = t_S st, pq_m = [], undo_m = rest\<rparr>"
    by (rule arg_cong [where f = schedule_all]) simp
  then show u: "undo s = (True, schedule_all
                 \<lparr>cfg_m = cfg_m s, P_m = P_S st, t_m = t_S st, pq_m = [], undo_m = rest\<rparr>)"
    using h unfolding undo_def Let_def by simp
  show "t_m (snd (undo s)) = t_S st" "P_m (snd (undo s)) = P_S st"
    "undo_m (snd (undo s)) = rest" "cfg_m (snd (undo s)) = cfg_m s"
    unfolding u by simp_all
qed

theorem undo_spec_witness:
  "undo_m (sim_of default_cfg [body 5 5 1 0 (1/2) 1]) = []
   \<and> undo (sim_of default_cfg [body 5 5 1 0 (1/2) 1])
       = (False, sim_of default_cfg [body 5 5 1 0 (1/2) 1])
   \<and> enable_rollback default_cfg
   \<and> undo \<lparr>cfg_m = default_cfg,
           P_m = [\<lparr>r = \<lparr>x = 19/2, y = 5\<rparr>, v = \<lparr>x = - 1, y = 0\<rparr>, rad = 1/2, m = 1, coll_count = 1\<rparr>],
           t_m = 9/2,
           pq_m = [\<lparr>t = 27/2, a = 0, b = - 1, type = P_WALL_X, collA = 1, collB = - 1\<rparr>],
           undo_m = [\<lparr>t_S = 0, P_S = [body 5 5 1 0 (1/2) 1]\<rparr>]\<rparr>
     = (True, \<lparr>cfg_m = default_cfg, P_m = [body 5 5 1 0 (1/2) 1], t_m = 0,
               pq_m = [\<lparr>t = 9/2, a = 0, b = - 1, type = P_WALL_X, collA = 0, collB = - 1\<rparr>],
               undo_m = []\<rparr>)"
proof -
  let ?s1 = "sim_of default_cfg [body 5 5 1 0 (1/2) 1]"
  let ?st = "\<lparr>t_S = 0, P_S = [body 5 5 1 0 (1/2) 1]\<rparr>"
  let ?s2 = "\<lparr>cfg_m = default_cfg,
           P_m = [\<lparr>r = \<lparr>x = 19/2, y = 5\<rparr>, v = \<lparr>x = - 1, y = 0\<rparr>, rad = 1/2, m = 1, coll_count = 1\<rparr>],
           t_m = 9/2,
           pq_m = [\<lparr>t = 27/2, a = 0, b = - 1, type = P_WALL_X, collA = 1, collB = - 1\<rparr>],
           undo_m = [?st]\<rparr>"
  have en: "enable_rollback default_cfg"
    by (simp add: default_cfg_def)
  have seed: "schedule_all \<lparr>cfg_m = default_cfg, P_m = [body 5 5 1 0 (1/2) 1], t_m = 0, pq_m = [], undo_m = []\<rparr>
      = \<lparr>cfg_m = default_cfg, P_m = [body 5 5 1 0 (1/2) 1], t_m = 0,
               pq_m = [\<lparr>t = 9/2, a = 0, b = - 1, type = P_WALL_X, collA = 0, collB = - 1\<rparr>],
               undo_m = []\<rparr>"
    by (simp add: schedule_all_def schedule_wall_events_def schedule_pp_events_for_def
        push_def pq_push_def time_to_wall_x_def time_to_wall_y_def body_def default_cfg_def Let_def)
  have A: "undo_m ?s1 = []" "undo ?s1 = (False, ?s1)"
    using undo_spec [of ?s1] by (simp_all add: sim_of_def)
  have B: "undo ?s2 = (True, schedule_all
      \<lparr>cfg_m = default_cfg, P_m = [body 5 5 1 0 (1/2) 1], t_m = 0, pq_m = [], undo_m = []\<rparr>)"
    using undo_spec [of ?s2 ?st "[]"] by (simp add: en)
  show ?thesis
    using A B en unfolding seed by simp
qed


section \<open>Rescheduling after a wall event\<close>

text \<open>Whatever \<open>schedule_pp_events_for\<close> adds for body \<open>i\<close> pairs it with a body of
  higher index.\<close>

lemma push_pp_event_pq:
  "e \<in> set (pq_m (push_pp_event s i j)) \<Longrightarrow> e \<in> set (pq_m s) \<or> a e = int i \<and> b e = int j"
  by (auto simp: push_pp_event_def split: option.splits if_splits)

lemma schedule_pp_events_for_partners:
  assumes "e \<in> set (pq_m (schedule_pp_events_for s i))"
  shows "e \<in> set (pq_m s) \<or> a e = int i \<and> int i < b e"
proof -
  have "e \<in> set (pq_m u) \<or> a e = int i \<and> b e \<in> int ` set js"
    if "e \<in> set (pq_m (fold (\<lambda>j s'. push_pp_event s' i j) js u))" for js u
    using that
  proof (induction js arbitrary: u)
    case Nil
    then show ?case
      by simp
  next
    case (Cons j js)
    from Cons.IH [of "push_pp_event u i j"] Cons.prems
    have "e \<in> set (pq_m (push_pp_event u i j)) \<or> a e = int i \<and> b e \<in> int ` set js"
      by simp
    then show ?case
      by (auto dest: push_pp_event_pq)
  qed
  from this [of "[i + 1..<length (P_m s)]" s] assms show ?thesis
    by (auto simp: schedule_pp_events_for_def)
qed

text \<open>
  Claim C2. The claim is that after a wall event for body \<open>i\<close> the pair time is predicted
  again for every other body, lower indices included. The wall branches call
  \<open>schedule_pp_events_for\<close>, whose loop starts at \<open>i + 1\<close>
  (\<open>schedule_pp_events_for_partners\<close>); only the pair branch pairs every
  \<open>k\<close> with the changed bodies. Here body \<open>1\<close> bounces off the right wall at time \<open>1/2\<close> and
  now heads for body \<open>0\<close>, at rest: the pair would meet \<open>13/2\<close> later, within the horizon, but
  the only event pending after the iteration is the next wall event of body \<open>1\<close>.
\<close>

theorem wall_event_skips_lower_partner:
  "run_iteration (schedule_all (sim_of default_cfg [body 2 5 0 0 (1/2) 1, body 9 5 1 0 (1/2) 1])) 0
   = Next \<lparr>cfg_m = default_cfg,
            P_m = [body 2 5 0 0 (1/2) 1,
                   \<lparr>r = \<lparr>x = 19/2, y = 5\<rparr>, v = \<lparr>x = - 1, y = 0\<rparr>, rad = 1/2, m = 1,
                      coll_count = 1\<rparr>],
            t_m = 1/2,
            pq_m = [\<lparr>t = 19/2, a = 1, b = - 1, type = P_WALL_X, collA = 1, collB = - 1\<rparr>],
            undo_m = [\<lparr>t_S = 0, P_S = [body 2 5 0 0 (1/2) 1, body 9 5 1 0 (1/2) 1]\<rparr>]\<rparr> 1
   \<and> time_to_pp (body 2 5 0 0 (1/2) 1)
        \<lparr>r = \<lparr>x = 19/2, y = 5\<rparr>, v = \<lparr>x = - 1, y = 0\<rparr>, rad = 1/2, m = 1, coll_count = 1\<rparr>
     = Some (13/2)
   \<and> 1/2 + 13/2 \<le> T_end default_cfg"
proof -
  let ?b0 = "body 2 5 0 0 (1/2) 1"
  let ?b1' = "\<lparr>r = \<lparr>x = 19/2, y = 5\<rparr>, v = \<lparr>x = - 1, y = 0\<rparr>, rad = 1/2, m = 1, coll_count = 1\<rparr>"
  let ?e = "\<lparr>t = 1/2, a = 1, b = - 1, type = P_WALL_X, collA = 0, collB = - 1\<rparr>"
  let ?e' = "\<lparr>t = 19/2, a = 1, b = - 1, type = P_WALL_X, collA = 1, collB = - 1\<rparr>"
  let ?u = "[\<lparr>t_S = 0, P_S = [?b0, body 9 5 1 0 (1/2) 1]\<rparr>]"
  let ?s0 = "\<lparr>cfg_m = default_cfg, P_m = [?b0, body 9 5 1 0 (1/2) 1], t_m = 0, pq_m = [?e], undo_m = []\<rparr>"
  let ?s2 = "\<lparr>cfg_m = default_cfg, P_m = [?b0, body 9 5 1 0 (1/2) 1], t_m = 0, pq_m = [], undo_m = ?u\<rparr>"
  let ?s3 = "\<lparr>cfg_m = default_cfg, P_m = [?b0, body (19/2) 5 1 0 (1/2) 1], t_m = 1/2, pq_m = [], undo_m = ?u\<rparr>"
  let ?s4 = "\<lparr>cfg_m = default_cfg, P_m = [?b0, ?b1'], t_m = 1/2, pq_m = [], undo_m = ?u\<rparr>"
  let ?s5 = "\<lparr>cfg_m = default_cfg, P_m = [?b0, ?b1'], t_m = 1/2, pq_m = [?e'], undo_m = ?u\<rparr>"
  let ?si = "\<lparr>cfg_m = default_cfg, P_m = [?b0, body 9 5 1 0 (1/2) 1], t_m = 0, pq_m = [], undo_m = []\<rparr>"
  have wall0: "schedule_wall_events ?si 0 = ?si"
    by (simp add: schedule_wall_events_def time_to_wall_x_def time_to_wall_y_def sim_of_def
        body_def Let_def)
  have wall1: "schedule_wall_events ?si (Suc 0) = ?s0"
    by (simp add: schedule_wall_events_def time_to_wall_x_def time_to_wall_y_def sim_of_def
        body_def default_cfg_def push_def pq_push_def Let_def)
  have pp01: "push_pp_event ?s0 0 (Suc 0) = ?s0"
    by (simp add: push_pp_event_def time_to_pp_def body_def Vec2_sub_def dot_def Let_def)
  have for0: "schedule_pp_events_for ?s0 0 = ?s0"
    unfolding schedule_pp_events_for_def by (simp add: pp01)
  have for1: "schedule_pp_events_for ?s0 (Suc 0) = ?s0"
    unfolding schedule_pp_events_for_def by simp
  have seed: "schedule_all (sim_of default_cfg [?b0, body 9 5 1 0 (1/2) 1]) = ?s0"
    unfolding schedule_all_def Let_def sim_of_def
    by (simp add: wall0 wall1 for0 for1)
  have snap: "snapshot (?s0\<lparr>pq_m := pq_pop (pq_m ?s0)\<rparr>) = Inr ?s2"
    by (simp add: snapshot_def pq_pop_def default_cfg_def)
  have drift: "drift_to ?s2 (1/2) = ?s3"
    by (simp add: drift_to_def body_def Vec2_add_def Vec2_mul_def Let_def)
  have bounce: "bounce_wall_x ?s3 1 = ?s4"
    by (simp add: bounce_wall_x_def body_def)
  have wall: "schedule_wall_events ?s4 1 = ?s5"
    by (simp add: schedule_wall_events_def time_to_wall_x_def time_to_wall_y_def
        default_cfg_def push_def pq_push_def Let_def)
  have pp: "schedule_pp_events_for ?s5 1 = ?s5"
    by (simp add: schedule_pp_events_for_def)
  have "run_switch ?s3 ?e
          = schedule_pp_events_for (schedule_wall_events (bounce_wall_x ?s3 1) 1) 1"
    by (simp add: run_switch_def)
  then have sw: "run_switch ?s3 ?e = ?s5"
    by (simp only: bounce wall pp)
  have top: "pq_top (pq_m ?s0) = ?e" and te: "t ?e = 1/2"
    by simp_all
  have "run_iteration ?s0 0 =
      (case snapshot (?s0\<lparr>pq_m := pq_pop (pq_m ?s0)\<rparr>) of
         Inl err \<Rightarrow> Fail err
       | Inr s2 \<Rightarrow> Next (run_switch (drift_to s2 (t (pq_top (pq_m ?s0)))) (pq_top (pq_m ?s0)))
                       (0 + 1))"
    by (rule run_iteration_commit) (simp_all add: valid_def body_def default_cfg_def)
  then have it: "run_iteration ?s0 0 = Next ?s5 1"
    unfolding snap top te sum.case drift sw by simp
  have tp: "time_to_pp ?b0 ?b1' = Some (13/2)"
    by (simp add: time_to_pp_def body_def Vec2_sub_def dot_def norm2_def Let_def)
  show ?thesis
    unfolding seed it tp by (simp add: default_cfg_def)
qed


section \<open>Reaching the horizon\<close>

text \<open>Two runs of one body that hits the right wall at time \<open>9/2\<close>. With rollback
  enabled and the bound \<open>-1\<close>, the first commit calls \<open>snapshot\<close>, whose \<^verbatim>\<open>reserve\<close> throws.
  With rollback disabled the run commits that one event and drifts to the horizon.\<close>

lemma run_negative_depth_fails:
  "run (sim_of (default_cfg\<lparr>rollback_depth := - 1\<rparr>) [body 5 5 1 0 (1/2) 1]) = Inl LengthError"
proof -
  let ?d = "default_cfg\<lparr>rollback_depth := - 1\<rparr>"
  let ?e = "\<lparr>t = 9/2, a = 0, b = - 1, type = P_WALL_X, collA = 0, collB = - 1\<rparr>"
  let ?u = "\<lparr>cfg_m = ?d, P_m = [body 5 5 1 0 (1/2) 1], t_m = 0, pq_m = [], undo_m = []\<rparr>"
  let ?w = "\<lparr>cfg_m = ?d, P_m = [body 5 5 1 0 (1/2) 1], t_m = 0, pq_m = [?e], undo_m = []\<rparr>"
  have seed: "schedule_all ?u = ?w"
    by (simp add: schedule_all_def schedule_wall_events_def schedule_pp_events_for_def
        push_def pq_push_def time_to_wall_x_def time_to_wall_y_def body_def default_cfg_def Let_def)
  have snap: "snapshot (?w\<lparr>pq_m := pq_pop (pq_m ?w)\<rparr>) = Inl LengthError"
    by (simp add: snapshot_def default_cfg_def)
  have "run_iteration ?w 0 =
      (case snapshot (?w\<lparr>pq_m := pq_pop (pq_m ?w)\<rparr>) of
         Inl err \<Rightarrow> Fail err
       | Inr s2 \<Rightarrow> Next (run_switch (drift_to s2 (t (pq_top (pq_m ?w)))) (pq_top (pq_m ?w)))
                       (0 + 1))"
    by (rule run_iteration_commit) (simp_all add: valid_def body_def default_cfg_def)
  then have "run_iteration ?w 0 = Fail LengthError"
    unfolding snap sum.case .
  then have "run_loop ?w 0 = Inl LengthError"
    by (rule run_loop_Fail)
  then show ?thesis
    unfolding run_def sim_of_def seed by simp
qed

lemma run_rollback_disabled:
  "run (sim_of (default_cfg\<lparr>enable_rollback := False, rollback_depth := - 1\<rparr>)
          [body 5 5 1 0 (1/2) 1])
   = Inr \<lparr>cfg_m = default_cfg\<lparr>enable_rollback := False, rollback_depth := - 1\<rparr>,
      P_m = [\<lparr>r = \<lparr>x = 2, y = 5\<rparr>, v = \<lparr>x = - 1, y = 0\<rparr>, rad = 1/2, m = 1, coll_count = 1\<rparr>],
      t_m = 12, pq_m = [], undo_m = []\<rparr>"
proof -
  let ?c = "default_cfg\<lparr>enable_rollback := False, rollback_depth := - 1\<rparr>"
  let ?e = "\<lparr>t = 9/2, a = 0, b = - 1, type = P_WALL_X, collA = 0, collB = - 1\<rparr>"
  let ?s1 = "\<lparr>cfg_m = ?c, P_m = [body 5 5 1 0 (1/2) 1], t_m = 0, pq_m = [?e], undo_m = []\<rparr>"
  let ?s2 = "\<lparr>cfg_m = ?c, P_m = [body 5 5 1 0 (1/2) 1], t_m = 0, pq_m = [], undo_m = []\<rparr>"
  let ?s3 = "\<lparr>cfg_m = ?c, P_m = [body (19/2) 5 1 0 (1/2) 1], t_m = 9/2, pq_m = [], undo_m = []\<rparr>"
  let ?s4 = "\<lparr>cfg_m = ?c,
      P_m = [\<lparr>r = \<lparr>x = 19/2, y = 5\<rparr>, v = \<lparr>x = - 1, y = 0\<rparr>, rad = 1/2, m = 1, coll_count = 1\<rparr>],
      t_m = 9/2, pq_m = [], undo_m = []\<rparr>"
  have seed: "schedule_all (sim_of ?c [body 5 5 1 0 (1/2) 1]) = ?s1"
    by (simp add: schedule_all_def schedule_wall_events_def schedule_pp_events_for_def
        push_def pq_push_def time_to_wall_x_def time_to_wall_y_def
        sim_of_def body_def default_cfg_def Let_def)
  have snap: "snapshot (?s1\<lparr>pq_m := pq_pop (pq_m ?s1)\<rparr>) = Inr ?s2"
    by (simp add: snapshot_def pq_pop_def default_cfg_def)
  have drift: "drift_to ?s2 (9/2) = ?s3"
    by (simp add: drift_to_def body_def Vec2_add_def Vec2_mul_def Let_def)
  have bounce: "bounce_wall_x ?s3 0 = ?s4"
    by (simp add: bounce_wall_x_def body_def)
  have wall: "schedule_wall_events ?s4 0 = ?s4"
    by (simp add: schedule_wall_events_def time_to_wall_x_def time_to_wall_y_def
        default_cfg_def Let_def)
  have pp: "schedule_pp_events_for ?s4 0 = ?s4"
    by (simp add: schedule_pp_events_for_def)
  have "run_switch ?s3 ?e
          = schedule_pp_events_for (schedule_wall_events (bounce_wall_x ?s3 0) 0) 0"
    by (simp add: run_switch_def)
  then have sw: "run_switch ?s3 ?e = ?s4"
    by (simp only: bounce wall pp)
  have top: "pq_top (pq_m ?s1) = ?e" and te: "t ?e = 9/2"
    by simp_all
  have "run_iteration ?s1 0 =
      (case snapshot (?s1\<lparr>pq_m := pq_pop (pq_m ?s1)\<rparr>) of
         Inl err \<Rightarrow> Fail err
       | Inr s2 \<Rightarrow> Next (run_switch (drift_to s2 (t (pq_top (pq_m ?s1)))) (pq_top (pq_m ?s1)))
                       (0 + 1))"
    by (rule run_iteration_commit) (simp_all add: valid_def body_def default_cfg_def)
  then have "run_iteration ?s1 0 = Next ?s4 1"
    unfolding snap top te sum.case drift sw by simp
  then have "run_loop ?s1 0 = run_loop ?s4 1"
    by (rule run_loop_Next)
  also have "\<dots> = Inr ?s4"
    by (rule run_loop_Stop) (simp add: run_iteration_stop)
  finally show ?thesis
    unfolding run_def seed by (simp add: drift_to_def Vec2_add_def Vec2_mul_def default_cfg_def)
qed

subsection \<open>The loop never fails when the rollback bound is not negative\<close>

lemma snapshot_safe:
  assumes "rollback_safe (cfg_m s)"
  shows "\<exists>s2. snapshot s = Inr s2 \<and> cfg_m s2 = cfg_m s \<and> P_m s2 = P_m s \<and> t_m s2 = t_m s
              \<and> pq_m s2 = pq_m s"
  using assms by (auto simp: snapshot_def rollback_safe_def)

lemma drift_to_time: "t_m (drift_to s T) = (if T - t_m s \<le> 0 then t_m s else T)"
  by (simp add: drift_to_def Let_def)

lemma run_iteration_time:
  assumes "rollback_safe (cfg_m s)" and "t_m s \<le> T_end (cfg_m s)"
  shows "case run_iteration s n of
           Next s' n' \<Rightarrow> cfg_m s' = cfg_m s \<and> t_m s' \<le> T_end (cfg_m s)
         | Stop s' \<Rightarrow> cfg_m s' = cfg_m s \<and> t_m s' \<le> T_end (cfg_m s)
         | Fail err \<Rightarrow> False"
proof -
  let ?s1 = "s\<lparr>pq_m := pq_pop (pq_m s)\<rparr>"
  from assms(1) have "rollback_safe (cfg_m ?s1)"
    by simp
  from snapshot_safe [OF this] obtain s2 where
    s2: "snapshot ?s1 = Inr s2" "cfg_m s2 = cfg_m s" "t_m s2 = t_m s"
    by auto
  show ?thesis
    using assms(2) s2 by (simp add: run_iteration_def Let_def drift_to_time)
qed

lemma run_loop_time:
  assumes "rollback_safe (cfg_m s)" and "t_m s \<le> T_end (cfg_m s)"
  shows "\<exists>s'. run_loop s n = Inr s' \<and> cfg_m s' = cfg_m s \<and> t_m s' \<le> T_end (cfg_m s)"
  using assms
proof (induction s n rule: run_loop.induct)
  case (1 s n)
  note it = run_iteration_time [OF "1.prems", of n]
  show ?case
  proof (cases "run_iteration s n")
    case (Next s' n')
    with it have c: "cfg_m s' = cfg_m s" and "t_m s' \<le> T_end (cfg_m s)"
      by simp_all
    with "1.prems" have "rollback_safe (cfg_m s')" and "t_m s' \<le> T_end (cfg_m s')"
      by simp_all
    from "1.IH" [OF Next this] c show ?thesis
      by (simp add: run_loop_Next [OF Next])
  next
    case (Stop s')
    with it show ?thesis
      by (simp add: run_loop_Stop [OF Stop])
  next
    case (Fail err)
    with it show ?thesis
      by simp
  qed
qed

lemma drift_body_0 [simp]: "drift_body 0 p = p"
  by (simp add: drift_body_def Vec2_add_def Vec2_mul_def)

lemma drift_to_horizon:
  assumes "t_m s \<le> T"
  shows "drift_to s T = s\<lparr>P_m := map (drift_body (T - t_m s)) (P_m s), t_m := T\<rparr>"
proof (cases "T - t_m s \<le> 0")
  case True
  with assms have "T = t_m s"
    by simp
  then show ?thesis
    by (simp add: drift_to_def map_idI)
next
  case False
  then show ?thesis
    by (simp add: drift_to_def Let_def drift_body_def)
qed

text \<open>
  Claim C9. The claim is that \<open>run\<close> ends at time \<open>T_end\<close> for every configuration. It does
  not when the horizon lies before the current time (\<open>drift_to\<close> never moves time backwards:
  with \<open>T_end = -1\<close> a fresh simulator ends at time \<open>0\<close>), nor when rollback is enabled with
  a negative bound (the first commit throws and \<open>run\<close> does not complete).
\<close>

theorem run_misses_horizon:
  "run (sim_of (default_cfg\<lparr>T_end := - 1\<rparr>) [body 5 5 1 0 (1/2) 1])
     = Inr (sim_of (default_cfg\<lparr>T_end := - 1\<rparr>) [body 5 5 1 0 (1/2) 1])
   \<and> t_m (sim_of (default_cfg\<lparr>T_end := - 1\<rparr>) [body 5 5 1 0 (1/2) 1]) = 0
   \<and> run (sim_of (default_cfg\<lparr>rollback_depth := - 1\<rparr>) [body 5 5 1 0 (1/2) 1])
     = Inl LengthError"
proof -
  let ?c = "default_cfg\<lparr>T_end := - 1\<rparr>"
  let ?s = "\<lparr>cfg_m = ?c, P_m = [body 5 5 1 0 (1/2) 1], t_m = 0, pq_m = [], undo_m = []\<rparr>"
  have seed: "schedule_all ?s = ?s"
    by (simp add: schedule_all_def schedule_wall_events_def schedule_pp_events_for_def
        time_to_wall_x_def time_to_wall_y_def body_def default_cfg_def Let_def)
  have loop: "run_loop ?s 0 = Inr ?s"
    by (rule run_loop_Stop) (simp add: run_iteration_stop)
  have drift: "drift_to ?s (T_end (cfg_m ?s)) = ?s"
    by (simp add: drift_to_def default_cfg_def)
  have "run (sim_of ?c [body 5 5 1 0 (1/2) 1]) = Inr (sim_of ?c [body 5 5 1 0 (1/2) 1])"
    unfolding run_def sim_of_def seed loop sum.case drift ..
  with run_negative_depth_fails show ?thesis
    by (simp add: sim_of_def)
qed

text \<open>
  Claim C9, amended. When the horizon is not before the current time (for a fresh
  simulator: \<open>0 \<le> T_end\<close>) and rollback is disabled or its bound is not negative, \<open>run\<close>
  terminates without an exception at time \<open>T_end\<close>: the loop ends in some state \<open>s1\<close> at a
  time not after \<open>T_end\<close>, whether the heap ran empty, the cap was reached or no event was
  ever committed, and the result is \<open>s1\<close> with every body moved by its velocity times the
  time left, \<open>T_end - t_m s1\<close>.
\<close>

theorem run_reaches_horizon:
  assumes "rollback_safe (cfg_m s)" and "t_m s \<le> T_end (cfg_m s)"
  shows "\<exists>s1. run_loop (schedule_all s) 0 = Inr s1 \<and> t_m s1 \<le> T_end (cfg_m s) \<and>
           run s = Inr (s1\<lparr>P_m := map (drift_body (T_end (cfg_m s) - t_m s1)) (P_m s1),
                           t_m := T_end (cfg_m s)\<rparr>)"
proof -
  from assms have "rollback_safe (cfg_m (schedule_all s))"
    and "t_m (schedule_all s) \<le> T_end (cfg_m (schedule_all s))"
    by simp_all
  from run_loop_time [OF this, of 0] obtain s1 where
    s1: "run_loop (schedule_all s) 0 = Inr s1" "cfg_m s1 = cfg_m s" "t_m s1 \<le> T_end (cfg_m s)"
    by auto
  then have "run s = Inr (drift_to s1 (T_end (cfg_m s)))"
    by (simp add: run_def)
  with s1 show ?thesis
    by (simp add: drift_to_horizon)
qed


theorem run_reaches_horizon_witness:
  "rollback_safe (cfg_m (sim_of default_cfg [body 5 5 1 0 (1/2) 1]))
   \<and> t_m (sim_of default_cfg [body 5 5 1 0 (1/2) 1])
       \<le> T_end (cfg_m (sim_of default_cfg [body 5 5 1 0 (1/2) 1]))
   \<and> (case run (sim_of default_cfg [body 5 5 1 0 (1/2) 1]) of
         Inl err \<Rightarrow> False
       | Inr s' \<Rightarrow> t_m s' = 12)"
proof -
  have h: "rollback_safe (cfg_m (sim_of default_cfg [body 5 5 1 0 (1/2) 1]))"
      "t_m (sim_of default_cfg [body 5 5 1 0 (1/2) 1])
       \<le> T_end (cfg_m (sim_of default_cfg [body 5 5 1 0 (1/2) 1]))"
    by (simp_all add: rollback_safe_def sim_of_def default_cfg_def)
  from run_reaches_horizon [OF h] obtain s1 where
    "run (sim_of default_cfg [body 5 5 1 0 (1/2) 1])
       = Inr (s1\<lparr>P_m := map (drift_body (T_end (cfg_m (sim_of default_cfg [body 5 5 1 0 (1/2) 1]))
                                            - t_m s1)) (P_m s1),
                  t_m := T_end (cfg_m (sim_of default_cfg [body 5 5 1 0 (1/2) 1]))\<rparr>)"
    by blast
  then have "case run (sim_of default_cfg [body 5 5 1 0 (1/2) 1]) of
               Inl err \<Rightarrow> False | Inr s' \<Rightarrow> t_m s' = 12"
    by (simp add: sim_of_def default_cfg_def)
  with h show ?thesis
    by simp
qed


section \<open>The rollback settings and the trajectory\<close>

lemma without_rollback_fields [simp]:
  "P_m (without_rollback s) = P_m s" "t_m (without_rollback s) = t_m s"
  "pq_m (without_rollback s) = pq_m s"
  "W (cfg_m (without_rollback s)) = W (cfg_m s)" "H (cfg_m (without_rollback s)) = H (cfg_m s)"
  "T_end (cfg_m (without_rollback s)) = T_end (cfg_m s)"
  "max_events (cfg_m (without_rollback s)) = max_events (cfg_m s)"
  by (simp_all add: without_rollback_def)

lemma time_to_wall_without_rollback [simp]:
  "time_to_wall_x (cfg_m (without_rollback s)) p = time_to_wall_x (cfg_m s) p"
  "time_to_wall_y (cfg_m (without_rollback s)) p = time_to_wall_y (cfg_m s) p"
  by (simp_all add: time_to_wall_x_def time_to_wall_y_def)

lemma push_without_rollback: "push (without_rollback s) e = without_rollback (push s e)"
  by (simp add: push_def without_rollback_def)

lemma schedule_wall_events_without_rollback:
  "schedule_wall_events (without_rollback s) i = without_rollback (schedule_wall_events s i)"
  by (simp add: schedule_wall_events_def Let_def push_without_rollback split: option.splits)

lemma push_pp_event_without_rollback:
  "push_pp_event (without_rollback s) i j = without_rollback (push_pp_event s i j)"
  by (simp add: push_pp_event_def push_without_rollback split: option.splits)

lemma fold_without_rollback:
  assumes "\<And>k u. f k (without_rollback u) = without_rollback (f k u)"
  shows "fold f ks (without_rollback s) = without_rollback (fold f ks s)"
  using assms by (induction ks arbitrary: s) simp_all

lemma schedule_pp_events_for_without_rollback:
  "schedule_pp_events_for (without_rollback s) i = without_rollback (schedule_pp_events_for s i)"
  by (simp add: schedule_pp_events_for_def fold_without_rollback push_pp_event_without_rollback)

lemma schedule_all_without_rollback:
  "schedule_all (without_rollback s) = without_rollback (schedule_all s)"
  by (simp add: schedule_all_def Let_def fold_without_rollback
      schedule_wall_events_without_rollback schedule_pp_events_for_without_rollback)

lemma drift_to_without_rollback:
  "drift_to (without_rollback s) T = without_rollback (drift_to s T)"
  by (simp add: drift_to_def Let_def without_rollback_def)

lemma bounce_without_rollback:
  "bounce_wall_x (without_rollback s) i = without_rollback (bounce_wall_x s i)"
  "bounce_wall_y (without_rollback s) i = without_rollback (bounce_wall_y s i)"
  "bounce_pp (without_rollback s) i j = without_rollback (bounce_pp s i j)"
  by (simp_all add: bounce_wall_x_def bounce_wall_y_def bounce_pp_def Let_def without_rollback_def)

lemma run_switch_without_rollback:
  "run_switch (without_rollback s) e = without_rollback (run_switch s e)"
  by (cases "type e")
     (simp_all add: run_switch_def Let_def bounce_without_rollback
        schedule_wall_events_without_rollback schedule_pp_events_for_without_rollback
        fold_without_rollback push_pp_event_without_rollback)

lemma valid_without_rollback [simp]: "valid (without_rollback s) e = valid s e"
  by (simp add: valid_def)

lemma snapshot_without_rollback:
  "snapshot (without_rollback s) = Inr (without_rollback s)"
  by (simp add: snapshot_def without_rollback_def)

lemma snapshot_safe_without_rollback:
  assumes "rollback_safe (cfg_m s)"
  shows "\<exists>s2. snapshot s = Inr s2 \<and> cfg_m s2 = cfg_m s \<and> without_rollback s2 = without_rollback s"
  using assms by (auto simp: snapshot_def rollback_safe_def without_rollback_def)

lemma without_rollback_pq:
  "without_rollback (s\<lparr>pq_m := q\<rparr>) = (without_rollback s)\<lparr>pq_m := q\<rparr>"
  by (simp add: without_rollback_def)

lemma run_iteration_without_rollback:
  assumes "rollback_safe (cfg_m s)"
  shows "case run_iteration s n of
           Next s' n' \<Rightarrow> cfg_m s' = cfg_m s
                          \<and> run_iteration (without_rollback s) n = Next (without_rollback s') n'
         | Stop s' \<Rightarrow> run_iteration (without_rollback s) n = Stop (without_rollback s')
         | Fail err \<Rightarrow> False"
proof -
  let ?s1 = "s\<lparr>pq_m := pq_pop (pq_m s)\<rparr>"
  from assms have "rollback_safe (cfg_m ?s1)"
    by simp
  from snapshot_safe_without_rollback [OF this] obtain s2 where
    s2: "snapshot ?s1 = Inr s2" "cfg_m s2 = cfg_m s" "without_rollback s2 = without_rollback ?s1"
    by auto
  show ?thesis
    using s2
    by (simp add: run_iteration_def Let_def without_rollback_pq [symmetric]
        snapshot_without_rollback run_switch_without_rollback [symmetric]
        drift_to_without_rollback [symmetric])
qed

lemma run_loop_without_rollback:
  assumes "rollback_safe (cfg_m s)"
  shows "\<exists>s'. run_loop s n = Inr s' \<and> cfg_m s' = cfg_m s
             \<and> run_loop (without_rollback s) n = Inr (without_rollback s')"
  using assms
proof (induction s n rule: run_loop.induct)
  case (1 s n)
  note it = run_iteration_without_rollback [OF "1.prems", of n]
  show ?case
  proof (cases "run_iteration s n")
    case (Next s' n')
    with it have c: "cfg_m s' = cfg_m s"
      and w: "run_iteration (without_rollback s) n = Next (without_rollback s') n'"
      by simp_all
    from c "1.prems" have "rollback_safe (cfg_m s')"
      by simp
    from "1.IH" [OF Next this] c show ?thesis
      by (simp add: run_loop_Next [OF Next] run_loop_Next [OF w])
  next
    case (Stop s')
    with it have w: "run_iteration (without_rollback s) n = Stop (without_rollback s')"
      by simp
    from Stop have "cfg_m s' = cfg_m s"
      by (auto simp: run_iteration_def Let_def split: if_splits sum.splits)
    then show ?thesis
      by (simp add: run_loop_Stop [OF Stop] run_loop_Stop [OF w])
  next
    case (Fail err)
    with it show ?thesis
      by simp
  qed
qed

lemma run_without_rollback:
  assumes "rollback_safe (cfg_m s)"
  shows "\<exists>s'. run s = Inr s' \<and> run (without_rollback s) = Inr (without_rollback s')"
proof -
  from assms have "rollback_safe (cfg_m (schedule_all s))"
    by simp
  from run_loop_without_rollback [OF this, of 0] obtain s1 where
    "run_loop (schedule_all s) 0 = Inr s1"
    "run_loop (without_rollback (schedule_all s)) 0 = Inr (without_rollback s1)"
    by auto
  then show ?thesis
    by (simp add: run_def schedule_all_without_rollback drift_to_without_rollback)
qed

text \<open>
  Claim C10. The claim is that two runs that differ only in the rollback settings end in
  the same time and bodies, for every configuration. With rollback enabled and the bound
  \<open>-1\<close> the run ends in an exception at its first commit; the same input with rollback
  disabled runs to the horizon.
\<close>

theorem rollback_config_interferes:
  "run (sim_of (default_cfg\<lparr>enable_rollback := True, rollback_depth := - 1\<rparr>)
          [body 5 5 1 0 (1/2) 1])
     = Inl LengthError
   \<and> run (sim_of (default_cfg\<lparr>enable_rollback := False, rollback_depth := - 1\<rparr>)
          [body 5 5 1 0 (1/2) 1])
     = Inr \<lparr>cfg_m = default_cfg\<lparr>enable_rollback := False, rollback_depth := - 1\<rparr>,
          P_m = [\<lparr>r = \<lparr>x = 2, y = 5\<rparr>, v = \<lparr>x = - 1, y = 0\<rparr>, rad = 1/2, m = 1,
                   coll_count = 1\<rparr>],
          t_m = 12, pq_m = [], undo_m = []\<rparr>"
proof -
  have "default_cfg\<lparr>enable_rollback := True, rollback_depth := - 1\<rparr>
        = default_cfg\<lparr>rollback_depth := - 1\<rparr>"
    by (simp add: default_cfg_def)
  with run_negative_depth_fails run_rollback_disabled show ?thesis
    by simp
qed

text \<open>
  Claim C10, amended. Among the configurations on which \<open>snapshot\<close> cannot throw (rollback
  disabled, or a bound that is not negative) the rollback settings do not influence the
  trajectory: from the same time, bodies and pending events, two runs that differ only in
  \<open>enable_rollback\<close> and \<open>rollback_depth\<close> both complete, with the same final time and the
  same final bodies.
\<close>

theorem rollback_config_non_interference:
  assumes "rollback_safe (cfg_m s)" and "en \<longrightarrow> 0 \<le> depth"
  shows "\<exists>s1 s2. run s = Inr s1
           \<and> run (s\<lparr>cfg_m := (cfg_m s)\<lparr>enable_rollback := en, rollback_depth := depth\<rparr>\<rparr>) = Inr s2
           \<and> t_m s2 = t_m s1 \<and> P_m s2 = P_m s1"
proof -
  let ?s' = "s\<lparr>cfg_m := (cfg_m s)\<lparr>enable_rollback := en, rollback_depth := depth\<rparr>\<rparr>"
  from assms(2) have "rollback_safe (cfg_m ?s')"
    by (simp add: rollback_safe_def)
  from run_without_rollback [OF this] obtain s2 where
    s2: "run ?s' = Inr s2" "run (without_rollback ?s') = Inr (without_rollback s2)"
    by auto
  from run_without_rollback [OF assms(1)] obtain s1 where
    s1: "run s = Inr s1" "run (without_rollback s) = Inr (without_rollback s1)"
    by auto
  have "without_rollback ?s' = without_rollback s"
    by (simp add: without_rollback_def)
  with s1 s2 have "without_rollback s2 = without_rollback s1"
    by simp
  then have "t_m (without_rollback s2) = t_m (without_rollback s1)"
    and "P_m (without_rollback s2) = P_m (without_rollback s1)"
    by simp_all
  with s1 s2 show ?thesis
    by simp
qed

theorem rollback_config_non_interference_witness:
  "rollback_safe (cfg_m (sim_of default_cfg [body 5 5 1 0 (1/2) 1]))
   \<and> (0::int) \<le> 2
   \<and> (case run (sim_of default_cfg [body 5 5 1 0 (1/2) 1]) of
         Inl err \<Rightarrow> False
       | Inr s1 \<Rightarrow>
           (case run (sim_of (default_cfg\<lparr>enable_rollback := True, rollback_depth := 2\<rparr>)
                        [body 5 5 1 0 (1/2) 1]) of
              Inl err \<Rightarrow> False
            | Inr s2 \<Rightarrow> t_m s2 = t_m s1 \<and> P_m s2 = P_m s1))"
proof -
  have h: "rollback_safe (cfg_m (sim_of default_cfg [body 5 5 1 0 (1/2) 1]))"
    by (simp add: rollback_safe_def sim_of_def default_cfg_def)
  have "(sim_of default_cfg [body 5 5 1 0 (1/2) 1])
          \<lparr>cfg_m := (cfg_m (sim_of default_cfg [body 5 5 1 0 (1/2) 1]))
                      \<lparr>enable_rollback := True, rollback_depth := 2\<rparr>\<rparr>
        = sim_of (default_cfg\<lparr>enable_rollback := True, rollback_depth := 2\<rparr>)
            [body 5 5 1 0 (1/2) 1]"
    by (simp add: sim_of_def)
  with rollback_config_non_interference [OF h, of True 2] h show ?thesis
    by auto
qed


section \<open>An example run\<close>

lemma corner_first_pass:
  "run_steps 1 (schedule_all (sim_of default_cfg [body 5 5 1 1 (1/2) 1])) 0 = Next corner_state 1"
proof -
  let ?b = "body 5 5 1 1 (1/2) 1"
  let ?ex = "\<lparr>t = 9/2, a = 0, b = - 1, type = P_WALL_X, collA = 0, collB = - 1\<rparr>"
  let ?u = "[\<lparr>t_S = 0, P_S = [?b]\<rparr>]"
  let ?s1 = "\<lparr>cfg_m = default_cfg, P_m = [?b], t_m = 0, pq_m = [?ex, first_wall_y], undo_m = []\<rparr>"
  let ?s2 = "\<lparr>cfg_m = default_cfg, P_m = [?b], t_m = 0, pq_m = [first_wall_y], undo_m = ?u\<rparr>"
  let ?s3 = "\<lparr>cfg_m = default_cfg, P_m = [body (19/2) (19/2) 1 1 (1/2) 1], t_m = 9/2,
              pq_m = [first_wall_y], undo_m = ?u\<rparr>"
  let ?s4 = "\<lparr>cfg_m = default_cfg,
      P_m = [\<lparr>r = \<lparr>x = 19/2, y = 19/2\<rparr>, v = \<lparr>x = - 1, y = 1\<rparr>, rad = 1/2, m = 1, coll_count = 1\<rparr>],
      t_m = 9/2, pq_m = [first_wall_y], undo_m = ?u\<rparr>"
  have seed: "schedule_all (sim_of default_cfg [?b]) = ?s1"
    by (simp add: schedule_all_def schedule_wall_events_def schedule_pp_events_for_def
        push_def pq_push_def time_to_wall_x_def time_to_wall_y_def
        sim_of_def body_def default_cfg_def first_wall_y_def Let_def)
  have top: "pq_top (pq_m ?s1) = ?ex" and te: "t ?ex = 9/2"
    by (simp_all add: first_wall_y_def)
  have snap: "snapshot (?s1\<lparr>pq_m := pq_pop (pq_m ?s1)\<rparr>) = Inr ?s2"
    by (simp add: snapshot_def pq_pop_def default_cfg_def first_wall_y_def)
  have drift: "drift_to ?s2 (9/2) = ?s3"
    by (simp add: drift_to_def body_def Vec2_add_def Vec2_mul_def Let_def)
  have bounce: "bounce_wall_x ?s3 0 = ?s4"
    by (simp add: bounce_wall_x_def body_def)
  have wall: "schedule_wall_events ?s4 0 = corner_state"
    by (simp add: schedule_wall_events_def time_to_wall_x_def time_to_wall_y_def
        default_cfg_def push_def pq_push_def corner_state_def second_wall_y_def Let_def)
  have pp: "schedule_pp_events_for corner_state 0 = corner_state"
    by (simp add: schedule_pp_events_for_def corner_state_def)
  have "run_switch ?s3 ?ex
          = schedule_pp_events_for (schedule_wall_events (bounce_wall_x ?s3 0) 0) 0"
    by (simp add: run_switch_def)
  then have sw: "run_switch ?s3 ?ex = corner_state"
    by (simp only: bounce wall pp)
  have "run_iteration ?s1 0 =
      (case snapshot (?s1\<lparr>pq_m := pq_pop (pq_m ?s1)\<rparr>) of
         Inl err \<Rightarrow> Fail err
       | Inr s2 \<Rightarrow> Next (run_switch (drift_to s2 (t (pq_top (pq_m ?s1)))) (pq_top (pq_m ?s1)))
                       (0 + 1))"
    by (rule run_iteration_commit)
       (simp_all add: valid_def body_def default_cfg_def first_wall_y_def)
  then have "run_iteration ?s1 0 = Next corner_state 1"
    unfolding snap top te sum.case drift sw by simp
  then show ?thesis
    unfolding seed by simp
qed

lemma corner_second_pass:
  "run_iteration corner_state 1 = Next (corner_state\<lparr>pq_m := [second_wall_y]\<rparr>) 1"
proof -
  have top: "pq_top (pq_m corner_state) = first_wall_y"
    by (simp add: corner_state_def first_wall_y_def second_wall_y_def)
  have "run_iteration corner_state 1 = Next (corner_state\<lparr>pq_m := pq_pop (pq_m corner_state)\<rparr>) 1"
    by (rule run_iteration_stale)
       (simp_all add: top, simp_all add: corner_state_def first_wall_y_def valid_def default_cfg_def)
  moreover have "pq_pop (pq_m corner_state) = [second_wall_y]"
    unfolding pq_pop_def top by (simp add: corner_state_def)
  ultimately show ?thesis
    by simp
qed


section \<open>Pending events and the current time\<close>

text \<open>The loop states that \<open>run_steps\<close> enumerates are the states of \<open>run_loop\<close>: the state it
  returns is the \<open>Stop\<close> of some number of passes.\<close>

lemma run_loop_steps:
  assumes "run_loop s n = Inr s'"
  shows "\<exists>k. run_steps k s n = Stop s'"
  using assms
proof (induction s n rule: run_loop.induct)
  case (1 s n)
  show ?case
  proof (cases "run_iteration s n")
    case (Next u j)
    with "1.prems" have "run_loop u j = Inr s'"
      by (simp add: run_loop_Next)
    from "1.IH" [OF Next this] obtain k where "run_steps k u j = Stop s'"
      by blast
    with Next have "run_steps (Suc k) s n = Stop s'"
      by simp
    then show ?thesis
      by blast
  next
    case (Stop u)
    with "1.prems" have "u = s'"
      by (simp add: run_loop_Stop)
    with Stop have "run_steps (Suc 0) s n = Stop s'"
      by simp
    then show ?thesis
      by blast
  next
    case (Fail err)
    with "1.prems" show ?thesis
      by (simp add: run_loop_Fail)
  qed
qed

subsection \<open>Predicted times\<close>

lemma wall_quotient_nonneg:
  fixes lo hi pos vel :: real
  assumes "lo \<le> pos" and "pos \<le> hi"
  shows "0 < vel \<Longrightarrow> 0 \<le> (hi - pos) / vel" and "vel < 0 \<Longrightarrow> 0 \<le> (lo - pos) / vel"
  using assms by (simp_all add: divide_nonneg_pos divide_nonpos_neg)

lemma time_to_wall_x_nonneg:
  assumes "in_box c p" and "time_to_wall_x c p = Some d"
  shows "0 \<le> d"
proof -
  from assms(1) have "rad p \<le> x (r p)" and "x (r p) \<le> W c - rad p"
    by (simp_all add: in_box_def)
  from wall_quotient_nonneg [OF this, of "x (v p)"] assms(2) show ?thesis
    by (auto simp: time_to_wall_x_def split: if_splits)
qed

lemma time_to_wall_y_nonneg:
  assumes "in_box c p" and "time_to_wall_y c p = Some d"
  shows "0 \<le> d"
proof -
  from assms(1) have "rad p \<le> y (r p)" and "y (r p) \<le> H c - rad p"
    by (simp_all add: in_box_def)
  from wall_quotient_nonneg [OF this, of "y (v p)"] assms(2) show ?thesis
    by (auto simp: time_to_wall_y_def split: if_splits)
qed

lemma guarded_root:
  fixes tc k d :: real
  assumes "(if c1 then None else if c2 then None else if tc \<le> k then None else Some tc) = Some d"
  shows "k < d"
  using assms by (auto split: if_splits)

lemma time_to_pp_pos:
  assumes "time_to_pp A B = Some d"
  shows "0 < d"
proof -
  from assms have "1 / 10 ^ 12 < d"
    unfolding time_to_pp_def Let_def by (rule guarded_root)
  moreover have "(0::real) < 1 / 10 ^ 12"
    by simp
  ultimately show ?thesis
    by (rule less_trans [rotated])
qed

subsection \<open>What the schedulers add\<close>

lemma adds_refl [simp]: "adds s s"
  by (simp add: adds_def)

lemma good_cong:
  assumes "cfg_m u = cfg_m s" and "P_m u = P_m s" and "t_m u = t_m s"
  shows "good u e = good s e"
  using assms by (simp add: good_def all_in_box_def)

lemma adds_trans:
  assumes "adds s u" and "adds u w"
  shows "adds s w"
proof -
  from assms(1) have "good u e = good s e" for e
    by (intro good_cong) (simp_all add: adds_def)
  with assms show ?thesis
    unfolding adds_def by (auto; blast)
qed

lemma adds_push:
  assumes "good s e"
  shows "adds s (push s e)"
  using assms by (auto simp: adds_def)

lemma wall_x_event_good:
  assumes "i < length (P_m s)" and "time_to_wall_x (cfg_m s) (P_m s ! i) = Some d"
  shows "good s (wall_x_event s i d)"
proof -
  have "t_m s \<le> t_m s + d" if "all_in_box s"
  proof -
    from that assms(1) have "in_box (cfg_m s) (P_m s ! i)"
      by (simp add: all_in_box_def)
    from time_to_wall_x_nonneg [OF this assms(2)] show ?thesis
      by simp
  qed
  with assms(1) show ?thesis
    by (simp add: good_def wall_x_event_def event_wf_def)
qed

lemma wall_y_event_good:
  assumes "i < length (P_m s)" and "time_to_wall_y (cfg_m s) (P_m s ! i) = Some d"
  shows "good s (wall_y_event s i d)"
proof -
  have "t_m s \<le> t_m s + d" if "all_in_box s"
  proof -
    from that assms(1) have "in_box (cfg_m s) (P_m s ! i)"
      by (simp add: all_in_box_def)
    from time_to_wall_y_nonneg [OF this assms(2)] show ?thesis
      by simp
  qed
  with assms(1) show ?thesis
    by (simp add: good_def wall_y_event_def event_wf_def)
qed

lemma schedule_wall_events_pq:
  "set (pq_m (schedule_wall_events s i)) =
     set (pq_m s)
     \<union> {wall_x_event s i d | d. time_to_wall_x (cfg_m s) (P_m s ! i) = Some d
                                \<and> t_m s + d \<le> T_end (cfg_m s)}
     \<union> {wall_y_event s i d | d. time_to_wall_y (cfg_m s) (P_m s ! i) = Some d
                                \<and> t_m s + d \<le> T_end (cfg_m s)}"
  by (auto simp: schedule_wall_events_def Let_def wall_x_event_def wall_y_event_def
           split: option.splits)

lemma schedule_wall_events_adds:
  assumes "i < length (P_m s)"
  shows "adds s (schedule_wall_events s i)"
  unfolding adds_def schedule_wall_events_pq
  using wall_x_event_good [OF assms] wall_y_event_good [OF assms] by auto

lemma schedule_wall_events_covered: "covered (schedule_wall_events s i) i"
proof -
  have "wall_x_event (schedule_wall_events s i) i d = wall_x_event s i d"
    and "wall_y_event (schedule_wall_events s i) i d = wall_y_event s i d" for d
    by (simp_all add: wall_x_event_def wall_y_event_def)
  then show ?thesis
    unfolding covered_def schedule_wall_events_pq by auto
qed

lemma push_pp_event_adds:
  assumes "i < length (P_m s)" and "j < length (P_m s)"
  shows "adds s (push_pp_event s i j)"
proof (cases "time_to_pp (P_m s ! i) (P_m s ! j)")
  case None
  then show ?thesis
    by (simp add: push_pp_event_def)
next
  case (Some d)
  from time_to_pp_pos [OF this] assms
  have "good s \<lparr>t = t_m s + d, a = int i, b = int j, type = P_P,
                collA = coll_count (P_m s ! i), collB = coll_count (P_m s ! j)\<rparr>"
    by (simp add: good_def event_wf_def)
  with Some show ?thesis
    by (simp add: push_pp_event_def adds_push)
qed

lemma fold_adds:
  assumes "adds s u" and "\<And>k w. k \<in> set ks \<Longrightarrow> adds s w \<Longrightarrow> adds w (f k w)"
  shows "adds s (fold f ks u)"
  using assms
proof (induction ks arbitrary: u)
  case Nil
  then show ?case
    by simp
next
  case (Cons k ks)
  from Cons.prems have "adds u (f k u)"
    by simp
  with Cons.prems(1) have "adds s (f k u)"
    by (rule adds_trans)
  with Cons.IH Cons.prems(2) show ?case
    by simp
qed

lemma schedule_pp_events_for_adds:
  assumes "i < length (P_m s)"
  shows "adds s (schedule_pp_events_for s i)"
  unfolding schedule_pp_events_for_def
proof (rule fold_adds)
  fix k w
  assume "k \<in> set [i + 1..<length (P_m s)]" and "adds s w"
  with assms have "i < length (P_m w)" and "k < length (P_m w)"
    by (simp_all add: adds_def)
  then show "adds w (push_pp_event w i k)"
    by (rule push_pp_event_adds)
qed simp

lemma pair_loop_adds:
  assumes "ia < length (P_m s)" and "ib < length (P_m s)"
  shows "adds s (fold (\<lambda>k s'. if k = ia \<or> k = ib then s'
                     else push_pp_event (push_pp_event s' (min k ia) (max k ia))
                                        (min k ib) (max k ib))
                  [0..<length (P_m s)] s)"
proof (rule fold_adds)
  fix k w
  assume "k \<in> set [0..<length (P_m s)]" and "adds s w"
  with assms have k: "k < length (P_m w)" and ia: "ia < length (P_m w)" and ib: "ib < length (P_m w)"
    by (simp_all add: adds_def)
  let ?w1 = "push_pp_event w (min k ia) (max k ia)"
  from k ia have 1: "adds w ?w1"
    by (intro push_pp_event_adds) simp_all
  from k ib have "adds ?w1 (push_pp_event ?w1 (min k ib) (max k ib))"
    by (intro push_pp_event_adds) simp_all
  with 1 have "adds w (push_pp_event ?w1 (min k ib) (max k ib))"
    by (rule adds_trans)
  then show "adds w (if k = ia \<or> k = ib then w
                     else push_pp_event (push_pp_event w (min k ia) (max k ia))
                                        (min k ib) (max k ib))"
    by simp
qed simp

lemma adds_covered:
  assumes "adds s s'" and "covered s i"
  shows "covered s' i"
proof -
  from assms(1) have "wall_x_event s' i d = wall_x_event s i d"
    and "wall_y_event s' i d = wall_y_event s i d" for d
    by (simp_all add: wall_x_event_def wall_y_event_def adds_def)
  with assms show ?thesis
    unfolding covered_def adds_def by auto
qed

lemma adds_all_in_box: "adds s s' \<Longrightarrow> all_in_box s' = all_in_box s"
  by (simp add: adds_def all_in_box_def)

lemma adds_events_wf:
  assumes "adds s s'" and "events_wf s"
  shows "events_wf s'"
  using assms unfolding adds_def events_wf_def good_def by auto

lemma adds_pending_not_past:
  assumes "adds s s'" and "all_in_box s" and "pending_not_past s"
  shows "pending_not_past s'"
  using assms unfolding adds_def pending_not_past_def good_def by auto

lemma adds_loop_inv:
  assumes "adds s s'" and "all_in_box s" and "pending_not_past s" and "events_wf s"
    and "\<And>i. i < length (P_m s) \<Longrightarrow> covered s' i"
  shows "loop_inv s'"
  using assms adds_all_in_box [OF assms(1)] adds_events_wf [OF assms(1,4)]
    adds_pending_not_past [OF assms(1,2,3)]
  by (simp add: loop_inv_def adds_def)

subsection \<open>Seeding\<close>

lemma fold_wall_adds:
  assumes "\<forall>k \<in> set ks. k < length (P_m s)"
  shows "adds s (fold (\<lambda>k u. schedule_wall_events u k) ks s)"
proof (rule fold_adds)
  fix k w
  assume "k \<in> set ks" and "adds s w"
  with assms have "k < length (P_m w)"
    by (simp add: adds_def)
  then show "adds w (schedule_wall_events w k)"
    by (rule schedule_wall_events_adds)
qed simp

lemma fold_wall_covered:
  assumes "\<forall>k \<in> set ks. k < length (P_m s)" and "i \<in> set ks"
  shows "covered (fold (\<lambda>k u. schedule_wall_events u k) ks s) i"
  using assms
proof (induction ks arbitrary: s)
  case Nil
  then show ?case
    by simp
next
  case (Cons k ks)
  let ?u = "schedule_wall_events s k"
  from Cons.prems(1) have ks: "\<forall>j \<in> set ks. j < length (P_m ?u)"
    by simp
  show ?case
  proof (cases "i = k")
    case True
    from fold_wall_adds [OF ks] schedule_wall_events_covered [of s k] True show ?thesis
      by (simp add: adds_covered)
  next
    case False
    with Cons.prems(2) have "i \<in> set ks"
      by simp
    from Cons.IH [OF ks this] show ?thesis
      by simp
  qed
qed

lemma fold_for_adds:
  assumes "\<forall>k \<in> set ks. k < length (P_m s)"
  shows "adds s (fold (\<lambda>k u. schedule_pp_events_for u k) ks s)"
proof (rule fold_adds)
  fix k w
  assume "k \<in> set ks" and "adds s w"
  with assms have "k < length (P_m w)"
    by (simp add: adds_def)
  then show "adds w (schedule_pp_events_for w k)"
    by (rule schedule_pp_events_for_adds)
qed simp

lemma schedule_all_adds: "adds s (schedule_all s)"
proof -
  let ?u = "fold (\<lambda>k u. schedule_wall_events u k) [0..<length (P_m s)] s"
  have 1: "adds s ?u"
    by (rule fold_wall_adds) simp
  have "adds ?u (fold (\<lambda>k u. schedule_pp_events_for u k) [0..<length (P_m ?u)] ?u)"
    by (rule fold_for_adds) simp
  with 1 show ?thesis
    unfolding schedule_all_def Let_def by (rule adds_trans)
qed

lemma schedule_all_covered:
  assumes "i < length (P_m s)"
  shows "covered (schedule_all s) i"
proof -
  let ?u = "fold (\<lambda>k u. schedule_wall_events u k) [0..<length (P_m s)] s"
  from assms have "covered ?u i"
    by (intro fold_wall_covered) simp_all
  moreover have "adds ?u (fold (\<lambda>k u. schedule_pp_events_for u k) [0..<length (P_m ?u)] ?u)"
    by (rule fold_for_adds) simp
  ultimately show ?thesis
    unfolding schedule_all_def Let_def by (rule adds_covered [rotated])
qed

lemma schedule_all_loop_inv:
  assumes "all_in_box s" and "pq_m s = []"
  shows "loop_inv (schedule_all s)"
proof (rule adds_loop_inv [OF schedule_all_adds assms(1)])
  show "pending_not_past s" and "events_wf s"
    using assms(2) by (simp_all add: pending_not_past_def events_wf_def)
qed (rule schedule_all_covered)

subsection \<open>Drifting to the next event\<close>

lemma time_to_wall_x_drift:
  "time_to_wall_x c (drift_body dt p) = map_option (\<lambda>d. d - dt) (time_to_wall_x c p)"
  by (simp add: time_to_wall_x_def drift_body_def Vec2_add_def Vec2_mul_def field_simps)

lemma time_to_wall_y_drift:
  "time_to_wall_y c (drift_body dt p) = map_option (\<lambda>d. d - dt) (time_to_wall_y c p)"
  by (simp add: time_to_wall_y_def drift_body_def Vec2_add_def Vec2_mul_def field_simps)

lemma axis_stays_inside:
  fixes lo hi pos vel dt :: real
  assumes "lo \<le> pos" and "pos \<le> hi" and "0 \<le> dt"
    and "0 < vel \<Longrightarrow> dt \<le> (hi - pos) / vel"
    and "vel < 0 \<Longrightarrow> dt \<le> (lo - pos) / vel"
  shows "lo \<le> pos + vel * dt \<and> pos + vel * dt \<le> hi"
proof -
  consider "0 < vel" | "vel < 0" | "vel = 0"
    by linarith
  then show ?thesis
  proof cases
    case 1
    with assms(4) have "vel * dt \<le> hi - pos"
      by (simp add: pos_le_divide_eq mult.commute)
    moreover from 1 assms(3) have "0 \<le> vel * dt"
      by simp
    ultimately show ?thesis
      using assms(1) by linarith
  next
    case 2
    with assms(5) have "lo - pos \<le> vel * dt"
      by (simp add: neg_le_divide_eq mult.commute)
    moreover from 2 assms(3) have "vel * dt \<le> 0"
      by (simp add: mult_nonpos_nonneg)
    ultimately show ?thesis
      using assms(2) by linarith
  next
    case 3
    with assms(1,2) show ?thesis
      by simp
  qed
qed

lemma drift_body_in_box:
  assumes "in_box c p" and "0 \<le> dt"
    and "\<And>d. time_to_wall_x c p = Some d \<Longrightarrow> dt \<le> d"
    and "\<And>d. time_to_wall_y c p = Some d \<Longrightarrow> dt \<le> d"
  shows "in_box c (drift_body dt p)"
proof -
  from assms(1) have bx: "rad p \<le> x (r p)" "x (r p) \<le> W c - rad p"
    and by': "rad p \<le> y (r p)" "y (r p) \<le> H c - rad p"
    by (simp_all add: in_box_def)
  have "rad p \<le> x (r p) + x (v p) * dt \<and> x (r p) + x (v p) * dt \<le> W c - rad p"
    using bx assms(2) assms(3) by (intro axis_stays_inside) (simp_all add: time_to_wall_x_def)
  moreover
  have "rad p \<le> y (r p) + y (v p) * dt \<and> y (r p) + y (v p) * dt \<le> H c - rad p"
    using by' assms(2) assms(4) by (intro axis_stays_inside) (simp_all add: time_to_wall_y_def)
  ultimately show ?thesis
    by (simp add: in_box_def drift_body_def Vec2_add_def Vec2_mul_def)
qed

lemma all_in_box_nth:
  "all_in_box s \<longleftrightarrow> (\<forall>i < length (P_m s). in_box (cfg_m s) (P_m s ! i))"
  by (simp add: all_in_box_def all_set_conv_all_nth)

lemma covered_cong:
  assumes "cfg_m u = cfg_m s" and "t_m u = t_m s" and "pq_m u = pq_m s"
    and "P_m u ! i = P_m s ! i"
  shows "covered u i = covered s i"
  using assms by (simp add: covered_def wall_x_event_def wall_y_event_def)

lemma covered_event_valid:
  shows "valid s (wall_x_event s i d)" and "valid s (wall_y_event s i d)"
  by (simp_all add: valid_def wall_x_event_def wall_y_event_def)

lemma covered_pop_stale:
  assumes "covered s i" and "\<not> valid s e"
  shows "covered (s\<lparr>pq_m := remove1 e (pq_m s)\<rparr>) i"
proof -
  have "wall_x_event s i d \<noteq> e" and "wall_y_event s i d \<noteq> e" for d
    using assms(2) covered_event_valid [of s i d] by auto
  then show ?thesis
    using assms(1) by (simp add: covered_def wall_x_event_def wall_y_event_def)
qed

lemma drift_step:
  assumes inv: "loop_inv s" and ne: "pq_m s \<noteq> []"
    and le: "t (pq_top (pq_m s)) \<le> T_end (cfg_m s)"
    and s2: "cfg_m s2 = cfg_m s" "P_m s2 = P_m s" "t_m s2 = t_m s"
            "pq_m s2 = pq_pop (pq_m s)"
  defines "e \<equiv> pq_top (pq_m s)"
  defines "s3 \<equiv> drift_to s2 (t e)"
  shows "all_in_box s3" and "pending_not_past s3" and "events_wf s3"
    and "length (P_m s3) = length (P_m s)"
    and "\<And>i. i < length (P_m s) \<Longrightarrow> type e = P_P \<or> nat (a e) \<noteq> i \<Longrightarrow> covered s3 i"
proof -
  let ?dt = "t e - t_m s"
  from inv have box: "all_in_box s" and past: "pending_not_past s" and wf: "events_wf s"
    and cov: "\<And>i. i < length (P_m s) \<Longrightarrow> covered s i"
    by (simp_all add: loop_inv_def)
  from ne have e_in: "e \<in> set (pq_m s)"
    by (simp add: e_def pq_top_in)
  with past have te: "t_m s \<le> t e"
    by (simp add: pending_not_past_def)
  have least: "t e \<le> t e'" if "e' \<in> set (pq_m s)" for e'
    using that by (simp add: e_def pq_top_least)
  from te s2(3) have s3: "s3 = s2\<lparr>P_m := map (drift_body ?dt) (P_m s), t_m := t e\<rparr>"
    by (simp add: s3_def drift_to_horizon s2(2))
  have f3: "cfg_m s3 = cfg_m s" "t_m s3 = t e" "pq_m s3 = remove1 e (pq_m s)"
    "P_m s3 = map (drift_body ?dt) (P_m s)"
    by (simp_all add: s3 s2 pq_pop_def e_def)
  show "length (P_m s3) = length (P_m s)"
    by (simp add: f3)
  have bx: "?dt \<le> d" if "i < length (P_m s)" "time_to_wall_x (cfg_m s) (P_m s ! i) = Some d" for i d
  proof (cases "t_m s + d \<le> T_end (cfg_m s)")
    case True
    with cov [OF that(1)] that(2) have "wall_x_event s i d \<in> set (pq_m s)"
      by (simp add: covered_def)
    from least [OF this] show ?thesis
      by (simp add: wall_x_event_def)
  next
    case False
    with le show ?thesis
      by (simp add: e_def)
  qed
  have by': "?dt \<le> d" if "i < length (P_m s)" "time_to_wall_y (cfg_m s) (P_m s ! i) = Some d" for i d
  proof (cases "t_m s + d \<le> T_end (cfg_m s)")
    case True
    with cov [OF that(1)] that(2) have "wall_y_event s i d \<in> set (pq_m s)"
      by (simp add: covered_def)
    from least [OF this] show ?thesis
      by (simp add: wall_y_event_def)
  next
    case False
    with le show ?thesis
      by (simp add: e_def)
  qed
  have "in_box (cfg_m s) (drift_body ?dt (P_m s ! i))" if "i < length (P_m s)" for i
  proof (rule drift_body_in_box)
    from box that show "in_box (cfg_m s) (P_m s ! i)"
      by (simp add: all_in_box_nth)
    from te show "0 \<le> ?dt"
      by simp
  qed (rule bx [OF that] by' [OF that], assumption)+
  then show "all_in_box s3"
    by (simp add: all_in_box_nth f3)
  show "pending_not_past s3"
    unfolding pending_not_past_def f3
    using least by (auto dest: notin_set_remove1)
  from wf show "events_wf s3"
    unfolding events_wf_def f3
    by (auto dest: notin_set_remove1)
  fix i
  assume i: "i < length (P_m s)" and other: "type e = P_P \<or> nat (a e) \<noteq> i"
  from other have nx: "wall_x_event s i d \<noteq> e" and ny: "wall_y_event s i d \<noteq> e" for d
    by (auto simp: wall_x_event_def wall_y_event_def)
  have ex: "wall_x_event s3 i (d - ?dt) = wall_x_event s i d"
    and ey: "wall_y_event s3 i (d - ?dt) = wall_y_event s i d" for d
    using i by (simp_all add: wall_x_event_def wall_y_event_def f3 drift_body_def)
  have "wall_x_event s3 i d' \<in> set (pq_m s3)"
    if "time_to_wall_x (cfg_m s3) (P_m s3 ! i) = Some d'" "t_m s3 + d' \<le> T_end (cfg_m s3)" for d'
  proof -
    from that(1) i obtain d where d: "time_to_wall_x (cfg_m s) (P_m s ! i) = Some d" "d' = d - ?dt"
      by (auto simp: f3 time_to_wall_x_drift)
    with that(2) have "t_m s + d \<le> T_end (cfg_m s)"
      by (simp add: f3)
    with cov [OF i] d(1) have "wall_x_event s i d \<in> set (pq_m s)"
      by (simp add: covered_def)
    with nx [of d] show ?thesis
      by (simp add: d(2) ex f3)
  qed
  moreover
  have "wall_y_event s3 i d' \<in> set (pq_m s3)"
    if "time_to_wall_y (cfg_m s3) (P_m s3 ! i) = Some d'" "t_m s3 + d' \<le> T_end (cfg_m s3)" for d'
  proof -
    from that(1) i obtain d where d: "time_to_wall_y (cfg_m s) (P_m s ! i) = Some d" "d' = d - ?dt"
      by (auto simp: f3 time_to_wall_y_drift)
    with that(2) have "t_m s + d \<le> T_end (cfg_m s)"
      by (simp add: f3)
    with cov [OF i] d(1) have "wall_y_event s i d \<in> set (pq_m s)"
      by (simp add: covered_def)
    with ny [of d] show ?thesis
      by (simp add: d(2) ey f3)
  qed
  ultimately show "covered s3 i"
    by (simp add: covered_def)
qed

subsection \<open>Resolving and rescheduling\<close>

lemma in_box_velocity [simp]:
  "in_box c (p\<lparr>v := w, coll_count := n\<rparr>) = in_box c p"
  by (simp add: in_box_def)

lemma bounce_wall_x_nth:
  "i < length (P_m s) \<Longrightarrow>
   in_box c (P_m (bounce_wall_x s k) ! i) = in_box c (P_m s ! i) \<and>
   (i \<noteq> k \<longrightarrow> P_m (bounce_wall_x s k) ! i = P_m s ! i)"
  by (cases "i = k") (simp_all add: bounce_wall_x_def Let_def)

lemma bounce_wall_y_nth:
  "i < length (P_m s) \<Longrightarrow>
   in_box c (P_m (bounce_wall_y s k) ! i) = in_box c (P_m s ! i) \<and>
   (i \<noteq> k \<longrightarrow> P_m (bounce_wall_y s k) ! i = P_m s ! i)"
  by (cases "i = k") (simp_all add: bounce_wall_y_def Let_def)

lemma bounce_pp_nth_geom:
  "i < length (P_m s) \<Longrightarrow>
   in_box c (P_m (bounce_pp s k j) ! i) = in_box c (P_m s ! i) \<and>
   (i \<noteq> k \<and> i \<noteq> j \<longrightarrow> P_m (bounce_pp s k j) ! i = P_m s ! i)"
  by (cases "i = j"; cases "i = k") (simp_all add: bounce_pp_def Let_def)

text \<open>A state that differs from \<open>s\<close> in the velocities and counters of the bodies in \<open>J\<close>
  only, as a bounce leaves it.\<close>

lemma resolved_loop_inv:
  assumes box: "all_in_box s" and past: "pending_not_past s" and wf: "events_wf s"
    and cov: "\<And>i. i < length (P_m s) \<Longrightarrow> i \<notin> J \<Longrightarrow> covered s i"
    and u: "cfg_m u = cfg_m s" "t_m u = t_m s" "pq_m u = pq_m s" "length (P_m u) = length (P_m s)"
    and geom: "\<And>i. i < length (P_m s) \<Longrightarrow>
                 in_box (cfg_m s) (P_m u ! i) = in_box (cfg_m s) (P_m s ! i) \<and>
                 (i \<notin> J \<longrightarrow> P_m u ! i = P_m s ! i)"
    and w: "adds u w" and covJ: "\<And>i. i < length (P_m s) \<Longrightarrow> i \<in> J \<Longrightarrow> covered w i"
  shows "loop_inv w"
proof (rule adds_loop_inv [OF w])
  from box geom show "all_in_box u"
    by (simp add: all_in_box_nth u)
  from past show "pending_not_past u"
    by (simp add: pending_not_past_def u)
  from wf show "events_wf u"
    by (simp add: events_wf_def u)
  fix i
  assume "i < length (P_m u)"
  then have i: "i < length (P_m s)"
    by (simp add: u)
  show "covered w i"
  proof (cases "i \<in> J")
    case True
    with i show ?thesis
      by (rule covJ)
  next
    case False
    with geom [OF i] have "P_m u ! i = P_m s ! i"
      by simp
    with u have "covered u i = covered s i"
      by (intro covered_cong) simp_all
    with cov [OF i False] have "covered u i"
      by simp
    with w show ?thesis
      by (rule adds_covered)
  qed
qed

lemma run_switch_wall_x:
  "type e = P_WALL_X \<Longrightarrow>
   run_switch s e = schedule_pp_events_for
                      (schedule_wall_events (bounce_wall_x s (nat (a e))) (nat (a e))) (nat (a e))"
  by (simp add: run_switch_def Let_def)

lemma run_switch_wall_y:
  "type e = P_WALL_Y \<Longrightarrow>
   run_switch s e = schedule_pp_events_for
                      (schedule_wall_events (bounce_wall_y s (nat (a e))) (nat (a e))) (nat (a e))"
  by (simp add: run_switch_def Let_def)

lemma run_switch_pp:
  "type e = P_P \<Longrightarrow>
   run_switch s e =
     fold (\<lambda>k s'. if k = nat (a e) \<or> k = nat (b e) then s'
                   else push_pp_event (push_pp_event s' (min k (nat (a e))) (max k (nat (a e))))
                                      (min k (nat (b e))) (max k (nat (b e))))
          [0..<length (P_m s)]
          (schedule_wall_events
             (schedule_wall_events (bounce_pp s (nat (a e)) (nat (b e))) (nat (a e))) (nat (b e)))"
  by (simp add: run_switch_def Let_def)

lemma wall_reschedule:
  assumes "k < length (P_m u)"
  shows "adds u (schedule_pp_events_for (schedule_wall_events u k) k)"
    and "covered (schedule_pp_events_for (schedule_wall_events u k) k) k"
proof -
  have 1: "adds u (schedule_wall_events u k)"
    using assms by (rule schedule_wall_events_adds)
  have 2: "adds (schedule_wall_events u k) (schedule_pp_events_for (schedule_wall_events u k) k)"
    using assms by (intro schedule_pp_events_for_adds) simp
  from 1 2 show "adds u (schedule_pp_events_for (schedule_wall_events u k) k)"
    by (rule adds_trans)
  from 2 schedule_wall_events_covered show "covered (schedule_pp_events_for (schedule_wall_events u k) k) k"
    by (rule adds_covered)
qed

lemma pair_reschedule:
  assumes "k < length (P_m u)" and "j < length (P_m u)"
  defines "w \<equiv> fold (\<lambda>i s'. if i = k \<or> i = j then s'
                   else push_pp_event (push_pp_event s' (min i k) (max i k)) (min i j) (max i j))
          [0..<length (P_m u)] (schedule_wall_events (schedule_wall_events u k) j)"
  shows "adds u w" and "covered w k" and "covered w j"
proof -
  let ?u1 = "schedule_wall_events u k"
  let ?u2 = "schedule_wall_events ?u1 j"
  have 1: "adds u ?u1"
    using assms(1) by (rule schedule_wall_events_adds)
  have 2: "adds ?u1 ?u2"
    using assms(2) by (intro schedule_wall_events_adds) simp
  have 3: "adds ?u2 w"
    using pair_loop_adds [of k ?u2 j] assms(1,2) by (simp add: w_def)
  from 1 2 3 show "adds u w"
    by (blast intro: adds_trans)
  from 2 3 have "adds ?u1 w"
    by (rule adds_trans)
  then show "covered w k"
    using schedule_wall_events_covered by (rule adds_covered)
  from 3 schedule_wall_events_covered show "covered w j"
    by (rule adds_covered)
qed

lemma run_switch_loop_inv:
  assumes box: "all_in_box s" and past: "pending_not_past s" and wf: "events_wf s"
    and e: "event_wf (length (P_m s)) e"
    and cov: "\<And>i. i < length (P_m s) \<Longrightarrow> type e = P_P \<or> nat (a e) \<noteq> i \<Longrightarrow> covered s i"
  shows "loop_inv (run_switch s e)"
proof (cases "type e")
  case P_WALL_X
  let ?u = "bounce_wall_x s (nat (a e))"
  from e have k: "nat (a e) < length (P_m ?u)"
    by (simp add: event_wf_def)
  show ?thesis
    unfolding run_switch_wall_x [OF P_WALL_X]
  proof (rule resolved_loop_inv [OF box past wf, where J = "{nat (a e)}" and u = ?u])
    show "adds ?u (schedule_pp_events_for (schedule_wall_events ?u (nat (a e))) (nat (a e)))"
      using k by (rule wall_reschedule)
    show "covered (schedule_pp_events_for (schedule_wall_events ?u (nat (a e))) (nat (a e))) i"
      if "i \<in> {nat (a e)}" for i
      using that wall_reschedule(2) [OF k] by simp
  qed (simp_all add: cov bounce_wall_x_nth)
next
  case P_WALL_Y
  let ?u = "bounce_wall_y s (nat (a e))"
  from e have k: "nat (a e) < length (P_m ?u)"
    by (simp add: event_wf_def)
  show ?thesis
    unfolding run_switch_wall_y [OF P_WALL_Y]
  proof (rule resolved_loop_inv [OF box past wf, where J = "{nat (a e)}" and u = ?u])
    show "adds ?u (schedule_pp_events_for (schedule_wall_events ?u (nat (a e))) (nat (a e)))"
      using k by (rule wall_reschedule)
    show "covered (schedule_pp_events_for (schedule_wall_events ?u (nat (a e))) (nat (a e))) i"
      if "i \<in> {nat (a e)}" for i
      using that wall_reschedule(2) [OF k] by simp
  qed (simp_all add: cov bounce_wall_y_nth)
next
  case P_P
  let ?u = "bounce_pp s (nat (a e)) (nat (b e))"
  let ?w = "fold (\<lambda>k s'. if k = nat (a e) \<or> k = nat (b e) then s'
                   else push_pp_event (push_pp_event s' (min k (nat (a e))) (max k (nat (a e))))
                                      (min k (nat (b e))) (max k (nat (b e))))
          [0..<length (P_m ?u)]
          (schedule_wall_events (schedule_wall_events ?u (nat (a e))) (nat (b e)))"
  from e P_P have k: "nat (a e) < length (P_m ?u)" and j: "nat (b e) < length (P_m ?u)"
    by (simp_all add: event_wf_def)
  have "loop_inv ?w"
  proof (rule resolved_loop_inv [OF box past wf, where J = "{nat (a e), nat (b e)}" and u = ?u])
    show "adds ?u ?w"
      using k j by (rule pair_reschedule)
    show "covered ?w i" if "i \<in> {nat (a e), nat (b e)}" for i
      using that pair_reschedule(2,3) [OF k j] by auto
  qed (simp_all add: cov P_P bounce_pp_nth_geom)
  then show ?thesis
    unfolding run_switch_pp [OF P_P] by simp
qed

subsection \<open>The invariant of the loop\<close>

lemma run_iteration_loop_inv:
  assumes inv: "loop_inv s"
  shows "case run_iteration s n of
           Next s' n' \<Rightarrow> loop_inv s'
         | Stop s' \<Rightarrow> pending_not_past s'
         | Fail err \<Rightarrow> True"
proof -
  let ?e = "pq_top (pq_m s)"
  let ?s1 = "s\<lparr>pq_m := pq_pop (pq_m s)\<rparr>"
  from inv have box: "all_in_box s" and past: "pending_not_past s" and wf: "events_wf s"
    and cov: "\<And>i. i < length (P_m s) \<Longrightarrow> covered s i"
    by (simp_all add: loop_inv_def)
  have past1: "pending_not_past ?s1"
    using past by (auto simp: pending_not_past_def pq_pop_def dest: notin_set_remove1)
  consider (stop) "pq_m s = [] \<or> \<not> n < max_events (cfg_m s)"
    | (break) "pq_m s \<noteq> []" "n < max_events (cfg_m s)" "t ?e > T_end (cfg_m s)"
    | (stale) "pq_m s \<noteq> []" "n < max_events (cfg_m s)" "t ?e \<le> T_end (cfg_m s)" "\<not> valid s ?e"
    | (commit) "pq_m s \<noteq> []" "n < max_events (cfg_m s)" "t ?e \<le> T_end (cfg_m s)" "valid s ?e"
    by fastforce
  then show ?thesis
  proof cases
    case stop
    with past show ?thesis
      by (simp add: run_iteration_stop)
  next
    case break
    with past1 show ?thesis
      by (simp add: run_iteration_break)
  next
    case stale
    have "loop_inv ?s1"
      unfolding loop_inv_def
    proof (intro conjI allI impI)
      from box show "all_in_box ?s1"
        by (simp add: all_in_box_def)
      from wf show "events_wf ?s1"
        by (auto simp: events_wf_def pq_pop_def dest: notin_set_remove1)
      fix i
      assume "i < length (P_m ?s1)"
      then have "covered s i"
        by (simp add: cov)
      from covered_pop_stale [OF this stale(4)] show "covered ?s1 i"
        by (simp add: pq_pop_def)
    qed (rule past1)
    with stale show ?thesis
      by (simp add: run_iteration_stale)
  next
    case commit
    show ?thesis
    proof (cases "snapshot ?s1")
      case (Inl err)
      with commit show ?thesis
        by (simp add: run_iteration_commit)
    next
      case (Inr s2)
      from snapshot_fields [OF Inr]
      have s2: "cfg_m s2 = cfg_m s" "P_m s2 = P_m s" "t_m s2 = t_m s" "pq_m s2 = pq_pop (pq_m s)"
        by simp_all
      note d = drift_step [OF inv commit(1,3) s2]
      from commit(1) wf have "event_wf (length (P_m s)) ?e"
        by (simp add: events_wf_def pq_top_in)
      with d(4) have "event_wf (length (P_m (drift_to s2 (t ?e)))) ?e"
        by simp
      from run_switch_loop_inv [OF d(1,2,3) this] d(4,5)
      have "loop_inv (run_switch (drift_to s2 (t ?e)) ?e)"
        by simp
      with commit Inr show ?thesis
        by (simp add: run_iteration_commit)
    qed
  qed
qed

lemma run_steps_loop_inv:
  assumes "loop_inv s"
  shows "case run_steps k s n of
           Next s' n' \<Rightarrow> loop_inv s'
         | Stop s' \<Rightarrow> pending_not_past s'
         | Fail err \<Rightarrow> True"
  using assms
proof (induction k arbitrary: s n)
  case 0
  then show ?case
    by simp
next
  case (Suc k)
  from run_iteration_loop_inv [OF Suc.prems, of n] Suc.IH show ?case
    by (cases "run_iteration s n") simp_all
qed

text \<open>
  Claim C8. The claim is that at every instant of \<open>run\<close> no pending event lies before the
  current time. The collision-time helpers are documented to return \<^verbatim>\<open>+inf\<close> when there is no
  future collision, and \<open>time_to_pp\<close> rejects a root that is not positive; \<open>time_to_wall_x\<close>
  and \<open>time_to_wall_y\<close> have no such guard. For a body beyond the wall it moves towards they
  return a negative time, and \<open>schedule_wall_events\<close> pushes the event: a body that starts at
  \<open>x = 20\<close> in the box of width \<open>10\<close>, moving right, gets the wall time \<open>-21/2\<close>, and after the
  seeding a wall event at time \<open>-21/2\<close> is pending while the current time is \<open>0\<close>.
\<close>

theorem past_event_after_seeding:
  "time_to_wall_x default_cfg (body 20 5 1 0 (1/2) 1) = Some (- 21/2)
   \<and> schedule_all (sim_of default_cfg [body 20 5 1 0 (1/2) 1])
     = \<lparr>cfg_m = default_cfg, P_m = [body 20 5 1 0 (1/2) 1], t_m = 0,
        pq_m = [\<lparr>t = - 21/2, a = 0, b = - 1, type = P_WALL_X, collA = 0, collB = - 1\<rparr>],
        undo_m = []\<rparr>
   \<and> t (pq_top (pq_m (schedule_all (sim_of default_cfg [body 20 5 1 0 (1/2) 1]))))
       < t_m (schedule_all (sim_of default_cfg [body 20 5 1 0 (1/2) 1]))"
  by (simp add: schedule_all_def schedule_wall_events_def schedule_pp_events_for_def
        push_def pq_push_def time_to_wall_x_def time_to_wall_y_def
        sim_of_def body_def default_cfg_def Let_def)

text \<open>
  What the loop does keep, in this model of exact real arithmetic: when \<open>run\<close> starts with
  every body inside the box and an empty heap, no pending event lies before the current
  time after the seeding and after each pass of the loop. The invariant \<open>loop_inv\<close> carries
  the proof: the wall hit of every moving body is pending or beyond the horizon, so the
  earliest pending event is never later than it and no body leaves the box. This is a fact
  about the loop over the reals only. It says nothing about the state after the final drift
  (a run ended by the cap leaves its pending events behind the horizon time), nor about
  the rounding of \<^verbatim>\<open>double\<close>s, which can place a rescheduled wall event just before the
  current time.
\<close>

lemma loop_keeps_pending_not_past:
  assumes "all_in_box s" and "pq_m s = []"
  shows "case run_steps k (schedule_all s) 0 of
           Next s' n' \<Rightarrow> pending_not_past s'
         | Stop s' \<Rightarrow> pending_not_past s'
         | Fail err \<Rightarrow> True"
proof -
  from assms have "loop_inv (schedule_all s)"
    by (rule schedule_all_loop_inv)
  from run_steps_loop_inv [OF this, of k 0] show ?thesis
    by (cases "run_steps k (schedule_all s) 0") (simp_all add: loop_inv_def)
qed

lemma corner_state_pending_not_past:
  "all_in_box (sim_of default_cfg [body 5 5 1 1 (1/2) 1])
   \<and> pq_m (sim_of default_cfg [body 5 5 1 1 (1/2) 1]) = []
   \<and> run_steps 1 (schedule_all (sim_of default_cfg [body 5 5 1 1 (1/2) 1])) 0
       = Next corner_state 1
   \<and> pending_not_past corner_state"
proof -
  have h: "all_in_box (sim_of default_cfg [body 5 5 1 1 (1/2) 1])"
      "pq_m (sim_of default_cfg [body 5 5 1 1 (1/2) 1]) = []"
    by (simp_all add: all_in_box_def in_box_def sim_of_def body_def default_cfg_def)
  from loop_keeps_pending_not_past [OF h, of 1] have "pending_not_past corner_state"
    unfolding corner_first_pass by simp
  with h corner_first_pass show ?thesis
    by simp
qed

subsection \<open>Events built by the schedulers name bodies\<close>

lemma run_switch_events_wf:
  assumes wf: "events_wf s" and e: "event_wf (length (P_m s)) e"
  shows "events_wf (run_switch s e)"
proof (cases "type e")
  case P_WALL_X
  let ?u = "bounce_wall_x s (nat (a e))"
  from e have "nat (a e) < length (P_m ?u)"
    by (simp add: event_wf_def)
  from wall_reschedule(1) [OF this] have "adds ?u (run_switch s e)"
    by (simp add: run_switch_wall_x [OF P_WALL_X])
  moreover from wf have "events_wf ?u"
    by (simp add: events_wf_def)
  ultimately show ?thesis
    by (rule adds_events_wf)
next
  case P_WALL_Y
  let ?u = "bounce_wall_y s (nat (a e))"
  from e have "nat (a e) < length (P_m ?u)"
    by (simp add: event_wf_def)
  from wall_reschedule(1) [OF this] have "adds ?u (run_switch s e)"
    by (simp add: run_switch_wall_y [OF P_WALL_Y])
  moreover from wf have "events_wf ?u"
    by (simp add: events_wf_def)
  ultimately show ?thesis
    by (rule adds_events_wf)
next
  case P_P
  let ?u = "bounce_pp s (nat (a e)) (nat (b e))"
  from e P_P have "nat (a e) < length (P_m ?u)" and "nat (b e) < length (P_m ?u)"
    by (simp_all add: event_wf_def)
  from pair_reschedule(1) [OF this] have "adds ?u (run_switch s e)"
    by (simp add: run_switch_pp [OF P_P])
  moreover from wf have "events_wf ?u"
    by (simp add: events_wf_def)
  ultimately show ?thesis
    by (rule adds_events_wf)
qed

lemma run_iteration_events_wf:
  assumes wf: "events_wf s"
  shows "case run_iteration s n of
           Next s' n' \<Rightarrow> events_wf s'
         | Stop s' \<Rightarrow> events_wf s'
         | Fail err \<Rightarrow> True"
proof -
  let ?e = "pq_top (pq_m s)"
  let ?s1 = "s\<lparr>pq_m := pq_pop (pq_m s)\<rparr>"
  from wf have wf1: "events_wf ?s1"
    by (auto simp: events_wf_def pq_pop_def dest: notin_set_remove1)
  consider (stop) "pq_m s = [] \<or> \<not> n < max_events (cfg_m s)"
    | (break) "pq_m s \<noteq> []" "n < max_events (cfg_m s)" "t ?e > T_end (cfg_m s)"
    | (stale) "pq_m s \<noteq> []" "n < max_events (cfg_m s)" "t ?e \<le> T_end (cfg_m s)" "\<not> valid s ?e"
    | (commit) "pq_m s \<noteq> []" "n < max_events (cfg_m s)" "t ?e \<le> T_end (cfg_m s)" "valid s ?e"
    by fastforce
  then show ?thesis
  proof cases
    case stop
    with wf show ?thesis
      by (simp add: run_iteration_stop)
  next
    case break
    with wf1 show ?thesis
      by (simp add: run_iteration_break)
  next
    case stale
    with wf1 show ?thesis
      by (simp add: run_iteration_stale)
  next
    case commit
    show ?thesis
    proof (cases "snapshot ?s1")
      case (Inl err)
      with commit show ?thesis
        by (simp add: run_iteration_commit)
    next
      case (Inr s2)
      let ?s3 = "drift_to s2 (t ?e)"
      from snapshot_fields [OF Inr] have s2: "P_m s2 = P_m s" "pq_m s2 = pq_pop (pq_m s)"
        by simp_all
      from wf1 have "events_wf ?s3"
        by (simp add: events_wf_def s2)
      moreover from commit(1) wf have "event_wf (length (P_m ?s3)) ?e"
        by (simp add: events_wf_def pq_top_in s2)
      ultimately have "events_wf (run_switch ?s3 ?e)"
        by (rule run_switch_events_wf)
      with commit Inr show ?thesis
        by (simp add: run_iteration_commit)
    qed
  qed
qed

lemma run_steps_events_wf:
  assumes "pq_m s = []"
  shows "case run_steps k (schedule_all s) 0 of
           Next s' n' \<Rightarrow> events_wf s'
         | Stop s' \<Rightarrow> events_wf s'
         | Fail err \<Rightarrow> True"
proof -
  have step: "case run_steps k u n of
           Next s' n' \<Rightarrow> events_wf s'
         | Stop s' \<Rightarrow> events_wf s'
         | Fail err \<Rightarrow> True" if "events_wf u" for u n
    using that
  proof (induction k arbitrary: u n)
    case 0
    then show ?case
      by simp
  next
    case (Suc k)
    from run_iteration_events_wf [OF Suc.prems, of n] Suc.IH show ?case
      by (cases "run_iteration u n") simp_all
  qed
  from assms have "events_wf s"
    by (simp add: events_wf_def)
  with schedule_all_adds have "events_wf (schedule_all s)"
    by (rule adds_events_wf)
  then show ?thesis
    by (rule step)
qed


section \<open>Stale events\<close>

subsection \<open>Counters only grow\<close>

lemma fold_P_m:
  assumes "\<And>k u. P_m (f k u) = P_m u"
  shows "P_m (fold f ks s) = P_m s"
  using assms by (induction ks arbitrary: s) simp_all

lemma run_switch_P_m:
  "P_m (run_switch s e) =
     P_m (case type e of
            P_WALL_X \<Rightarrow> bounce_wall_x s (nat (a e))
          | P_WALL_Y \<Rightarrow> bounce_wall_y s (nat (a e))
          | P_P \<Rightarrow> bounce_pp s (nat (a e)) (nat (b e)))"
  by (cases "type e") (simp_all add: run_switch_def Let_def)

lemma bounce_wall_x_count:
  "i < length (P_m s) \<Longrightarrow>
   coll_count (P_m (bounce_wall_x s k) ! i) = coll_count (P_m s ! i) + (if i = k then 1 else 0)"
  by (simp add: bounce_wall_x_def Let_def nth_list_update)

lemma bounce_wall_y_count:
  "i < length (P_m s) \<Longrightarrow>
   coll_count (P_m (bounce_wall_y s k) ! i) = coll_count (P_m s ! i) + (if i = k then 1 else 0)"
  by (simp add: bounce_wall_y_def Let_def nth_list_update)

lemma bounce_pp_count:
  "i < length (P_m s) \<Longrightarrow>
   coll_count (P_m (bounce_pp s k j) ! i) =
     coll_count (P_m s ! i)
       + (if (i = k \<or> i = j) \<and> 0 < norm2 (Vec2_sub (r (P_m s ! j)) (r (P_m s ! k)))
          then 1 else 0)"
proof (cases "k = j")
  case True
  then show ?thesis
    by (simp add: bounce_pp_def Let_def Vec2_sub_def norm2_def)
next
  case False
  assume "i < length (P_m s)"
  with False show ?thesis
    by (auto simp: bounce_pp_def Let_def nth_list_update)
qed

lemma drift_to_count:
  "i < length (P_m s) \<Longrightarrow> coll_count (P_m (drift_to s T) ! i) = coll_count (P_m s ! i)"
  by (simp add: drift_to_def Let_def)

lemma run_switch_count_mono:
  "i < length (P_m s) \<Longrightarrow> coll_count (P_m s ! i) \<le> coll_count (P_m (run_switch s e) ! i)"
  unfolding run_switch_P_m
  by (cases "type e") (simp_all add: bounce_wall_x_count bounce_wall_y_count bounce_pp_count)

lemma run_iteration_count_mono:
  assumes "run_iteration s n = Next s' n'"
  shows "length (P_m s') = length (P_m s) \<and>
         (\<forall>i < length (P_m s). coll_count (P_m s ! i) \<le> coll_count (P_m s' ! i))"
proof (cases "valid s (pq_top (pq_m s))")
  case False
  with assms show ?thesis
    by (auto simp: run_iteration_def Let_def split: if_splits)
next
  case True
  with assms obtain s2 where
    s2: "snapshot (s\<lparr>pq_m := pq_pop (pq_m s)\<rparr>) = Inr s2"
    and s': "s' = run_switch (drift_to s2 (t (pq_top (pq_m s)))) (pq_top (pq_m s))"
    by (auto simp: run_iteration_def Let_def split: if_splits sum.splits)
  from snapshot_fields(2) [OF s2] have P2: "P_m s2 = P_m s"
    by simp
  have "coll_count (P_m s ! i) \<le> coll_count (P_m s' ! i)" if "i < length (P_m s)" for i
  proof -
    from that P2 have "i < length (P_m (drift_to s2 (t (pq_top (pq_m s)))))"
      by simp
    from run_switch_count_mono [OF this, of "pq_top (pq_m s)"] that P2 show ?thesis
      by (simp add: s' drift_to_count)
  qed
  then show ?thesis
    by (simp add: s' P2)
qed

lemma run_steps_count_mono:
  assumes "run_steps k s n = Next s' n'"
  shows "length (P_m s') = length (P_m s) \<and>
         (\<forall>i < length (P_m s). coll_count (P_m s ! i) \<le> coll_count (P_m s' ! i))"
  using assms
proof (induction k arbitrary: s n)
  case 0
  then show ?case
    by simp
next
  case (Suc k)
  then obtain u j where it: "run_iteration s n = Next u j" and rest: "run_steps k u j = Next s' n'"
    by (auto split: loop_result.splits)
  from run_iteration_count_mono [OF it] Suc.IH [OF rest] show ?case
    by (auto intro: order_trans)
qed

lemma valid_iff_counters_match:
  assumes "event_wf (length (P_m s)) e"
  shows "valid s e \<longleftrightarrow> counters_match s e"
  using assms by (auto simp: valid_def counters_match_def event_wf_def)

lemma stale_not_match: "stale s e \<Longrightarrow> \<not> counters_match s e"
  by (auto simp: stale_def counters_match_def)

lemma run_iteration_discard:
  assumes "\<not> valid s (pq_top (pq_m s))"
  shows "case run_iteration s n of
           Next s' n' \<Rightarrow> same_state s s' \<and> n' = n
         | Stop s' \<Rightarrow> same_state s s'
         | Fail err \<Rightarrow> False"
  using assms by (simp add: run_iteration_def Let_def same_state_def)

text \<open>
  Claim C7. For an event that names bodies (every event of a run does, lemma
  \<open>run_steps_events_wf\<close>): \<open>valid\<close> holds exactly when every captured counter equals the
  body's current counter. When the popped event fails that test, the pass of the loop
  changes neither time, bodies, history nor the count of processed events, and raises no
  exception: only a valid event is committed. And once a body of an event has collided
  since the event was scheduled (its counter has grown past the captured value: every wall
  bounce and every pair bounce of distinct centres adds one, \<open>bounce_wall_x_count\<close>,
  \<open>bounce_wall_y_count\<close>, \<open>bounce_pp_count\<close>), the event is stale in every later state of the
  loop and \<open>valid\<close> rejects it there: it is never applied.
\<close>

theorem stale_event_never_applied:
  assumes "event_wf (length (P_m s)) e"
  shows "(valid s e \<longleftrightarrow> counters_match s e) \<and>
         (pq_top (pq_m s) = e \<and> \<not> counters_match s e \<longrightarrow>
            (case run_iteration s n of
               Next s' n' \<Rightarrow> same_state s s' \<and> n' = n
             | Stop s' \<Rightarrow> same_state s s'
             | Fail err \<Rightarrow> False)) \<and>
         (stale s e \<longrightarrow>
            (\<forall>k s' n'. run_steps k s n = Next s' n' \<longrightarrow> stale s' e \<and> \<not> valid s' e))"
proof (intro conjI impI allI)
  show vm: "valid s e \<longleftrightarrow> counters_match s e"
    using assms by (rule valid_iff_counters_match)
  {
    assume "pq_top (pq_m s) = e \<and> \<not> counters_match s e"
    with vm have "\<not> valid s (pq_top (pq_m s))"
      by simp
    then show "case run_iteration s n of
               Next s' n' \<Rightarrow> same_state s s' \<and> n' = n
             | Stop s' \<Rightarrow> same_state s s'
             | Fail err \<Rightarrow> False"
      by (rule run_iteration_discard)
  }
  fix k s' n'
  assume st: "stale s e" and steps: "run_steps k s n = Next s' n'"
  from run_steps_count_mono [OF steps] have len: "length (P_m s') = length (P_m s)"
    and mono: "\<And>i. i < length (P_m s) \<Longrightarrow> coll_count (P_m s ! i) \<le> coll_count (P_m s' ! i)"
    by simp_all
  from assms have ia: "nat (a e) < length (P_m s)"
    and ib: "type e = P_P \<Longrightarrow> nat (b e) < length (P_m s)"
    by (simp_all add: event_wf_def)
  from st mono [OF ia] mono [OF ib] show st': "stale s' e"
    by (auto simp: stale_def)
  from assms len have "event_wf (length (P_m s')) e"
    by simp
  from valid_iff_counters_match [OF this] stale_not_match [OF st'] show "\<not> valid s' e"
    by simp
qed

theorem stale_event_never_applied_witness:
  "event_wf (length (P_m corner_state)) first_wall_y
   \<and> pq_top (pq_m corner_state) = first_wall_y
   \<and> \<not> counters_match corner_state first_wall_y
   \<and> stale corner_state first_wall_y
   \<and> run_iteration corner_state 1 = Next (corner_state\<lparr>pq_m := [second_wall_y]\<rparr>) 1
   \<and> run_steps 1 corner_state 1 = Next (corner_state\<lparr>pq_m := [second_wall_y]\<rparr>) 1
   \<and> same_state corner_state (corner_state\<lparr>pq_m := [second_wall_y]\<rparr>)
   \<and> stale (corner_state\<lparr>pq_m := [second_wall_y]\<rparr>) first_wall_y
   \<and> valid (corner_state\<lparr>pq_m := [second_wall_y]\<rparr>) first_wall_y = False"
proof -
  have wf: "event_wf (length (P_m corner_state)) first_wall_y"
    by (simp add: event_wf_def corner_state_def first_wall_y_def)
  have top: "pq_top (pq_m corner_state) = first_wall_y"
    by (simp add: corner_state_def first_wall_y_def second_wall_y_def)
  have st: "stale corner_state first_wall_y"
    and nm: "\<not> counters_match corner_state first_wall_y"
    by (simp_all add: stale_def counters_match_def corner_state_def first_wall_y_def)
  note inst = stale_event_never_applied [OF wf, of 1]
  from inst top nm have "case run_iteration corner_state 1 of
               Next s' n' \<Rightarrow> same_state corner_state s' \<and> n' = 1
             | Stop s' \<Rightarrow> same_state corner_state s'
             | Fail err \<Rightarrow> False"
    by blast
  then have same: "same_state corner_state (corner_state\<lparr>pq_m := [second_wall_y]\<rparr>)"
    unfolding corner_second_pass by simp
  have steps: "run_steps 1 corner_state 1 = Next (corner_state\<lparr>pq_m := [second_wall_y]\<rparr>) 1"
    by (simp add: corner_second_pass)
  with inst st have "stale (corner_state\<lparr>pq_m := [second_wall_y]\<rparr>) first_wall_y
      \<and> \<not> valid (corner_state\<lparr>pq_m := [second_wall_y]\<rparr>) first_wall_y"
    by blast
  with wf top nm st same corner_second_pass steps show ?thesis
    by simp
qed

end
